theory Spec2Isabelle
  imports Complex_Main "HOL-Library.Sublist" "HOL-Library.AList"
begin

section \<open>String helpers\<close>

subsection \<open>The hand-written substring test (manager.go)\<close>

text \<open>
  Go's slice expression \<open>s[i:j]\<close> panics unless \<open>0 \<le> i \<le> j \<le> len(s)\<close>; the
  panic is the value \<open>None\<close>.
\<close>

definition go_slice :: "string \<Rightarrow> int \<Rightarrow> int \<Rightarrow> string option" where
  "go_slice s i j =
     (if 0 \<le> i \<and> i \<le> j \<and> j \<le> int (length s)
      then Some (take (nat (j - i)) (drop (nat i) s)) else None)"

text \<open>
  The loop of \<open>containsAt\<close>: \<open>for i := 0; i <= len(s)-len(substr); i++\<close>, entered at
  index \<open>i\<close>. The index is a signed integer, so the bound may be negative.
\<close>

function containsAt_loop :: "string \<Rightarrow> string \<Rightarrow> int \<Rightarrow> bool option" where
  "containsAt_loop s substr i =
     (if i \<le> int (length s) - int (length substr)
      then (case go_slice s i (i + int (length substr)) of
              None \<Rightarrow> None
            | Some t \<Rightarrow> if t = substr then Some True else containsAt_loop s substr (i + 1))
      else Some False)"
  by pat_completeness auto
termination
  by (relation "measure (\<lambda>(s, substr, i). nat (int (length s) - int (length substr) - i + 1))") auto

declare containsAt_loop.simps [simp del]

definition containsAt :: "string \<Rightarrow> string \<Rightarrow> bool option" where
  "containsAt s substr = containsAt_loop s substr 0"

text \<open>
  \<open>len(s) >= len(substr) && (s == substr || len(s) > 0 && containsAt(s, substr))\<close>,
  with the short-circuit evaluation written out.
\<close>

definition contains :: "string \<Rightarrow> string \<Rightarrow> bool option" where
  "contains s substr =
     (if length s \<ge> length substr
      then (if s = substr then Some True
            else if length s > 0 then containsAt s substr else Some False)
      else Some False)"

subsection \<open>Library functions of package strings\<close>

text \<open>\<open>strings.TrimPrefix(s, prefix)\<close>: \<open>s\<close> without the leading \<open>prefix\<close>, or \<open>s\<close> itself.\<close>

definition TrimPrefix :: "string \<Rightarrow> string \<Rightarrow> string" where
  "TrimPrefix s pre = (if prefix pre s then drop (length pre) s else s)"

text \<open>
  \<open>strings.Split(s, sep)\<close> for a separator of one byte: while the separator occurs, cut
  the text before its first occurrence and go on behind it; the rest is the last part.
\<close>

function Split :: "string \<Rightarrow> char \<Rightarrow> string list" where
  "Split s c =
     (if c \<in> set s
      then takeWhile (\<lambda>x. x \<noteq> c) s # Split (tl (dropWhile (\<lambda>x. x \<noteq> c) s)) c
      else [s])"
  by pat_completeness auto
termination
proof (relation "measure (\<lambda>(s, c). length s)")
  show "wf (measure (\<lambda>(s, c). length s))" by simp
next
  fix s :: string and c :: char
  assume "c \<in> set s"
  then have "dropWhile (\<lambda>x. x \<noteq> c) s \<noteq> []" by simp
  then have "length (tl (dropWhile (\<lambda>x. x \<noteq> c) s)) < length (dropWhile (\<lambda>x. x \<noteq> c) s)"
    by (cases "dropWhile (\<lambda>x. x \<noteq> c) s") simp_all
  also have "\<dots> \<le> length s" by (rule length_dropWhile_le)
  finally show "((tl (dropWhile (\<lambda>x. x \<noteq> c) s), c), (s, c)) \<in> measure (\<lambda>(s, c). length s)"
    by simp
qed

declare Split.simps [simp del]

text \<open>
  \<open>strings.SplitN(s, sep, 2)\<close> for a separator of one byte: at most two parts, the
  second being everything behind the first separator.
\<close>

definition SplitN2 :: "string \<Rightarrow> char \<Rightarrow> string list" where
  "SplitN2 s c =
     (if c \<in> set s
      then [takeWhile (\<lambda>x. x \<noteq> c) s, tl (dropWhile (\<lambda>x. x \<noteq> c) s)]
      else [s])"

subsection \<open>Stream-key extraction (rtmp.go)\<close>

definition extractStreamKey :: "string \<Rightarrow> string" where
  "extractStreamKey path =
     (let path' = TrimPrefix path ''/'';
          parts = Split path' (CHR ''/'')
      in if length parts \<ge> 2 then parts ! (length parts - 1)
         else if length parts = 1 \<and> parts ! 0 \<noteq> '''' then parts ! 0
         else ''default'')"

section \<open>Time, logging and outcomes of external calls\<close>

text \<open>
  A \<open>time.Time\<close> instant and a \<open>time.Duration\<close> are counts of nanoseconds. The wall
  clock is an input: every \<open>time.Now()\<close> of the source is a parameter of the model.
\<close>

type_synonym time = int
type_synonym bytes = string

text \<open>
  A call \<open>logger.Info(format, args...)\<close> is recorded as it is made: the level, the
  format string and the arguments (an error or a recovered panic value by its text).
\<close>

datatype level = INFO | WARN | ERROR
datatype arg = AStr string | AInt int
datatype logline = Log level string "arg list"

text \<open>
  What a call into an external library does: it returns normally, returns an error with a
  message, or panics. The outcome is an input of the model.
\<close>

datatype outcome = Success | Failure string | Fault string

text \<open>How a function of the source ends: with a value, or panicking with a payload.\<close>

datatype 'a ret = Return 'a | Panicking string

section \<open>The external segmenter (gohlslib.Muxer)\<close>

record request =
  Method :: string
  URL_Path :: string

datatype muxcall =
    MStart
  | MClose
  | MWriteH264 time time "bytes list"
  | MWriteMPEG4Audio time time "bytes list"
  | MHandle request

text \<open>
  The segmenter as the server sees it: the track parameters it was built from and the
  calls it has received, oldest first. (Variant, segment count 5 and segment duration
  of two seconds are constants of the source.)
\<close>

record muxer =
  SPS :: bytes
  PPS :: bytes
  SampleRate :: int
  ChannelCount :: int
  calls :: "muxcall list"

definition mux_call :: "muxcall \<Rightarrow> muxer \<Rightarrow> muxer" where
  "mux_call c m = m\<lparr>calls := calls m @ [c]\<rparr>"

section \<open>Streams (manager.go)\<close>

record Stream =
  Key :: string
  Muxer :: "muxer option"
  StartTime :: time
  Active :: bool
  sps :: bytes
  pps :: bytes
  audioSampleRate :: int
  audioChannelCount :: int
  ntpStart :: time
  muxerReady :: bool
  bytesTotal :: int
  lastUpdate :: time
  bitrate :: int

record StreamInfo =
  info_Key :: string
  info_StartTime :: time
  info_Bitrate :: int
  info_Viewers :: int
  info_Active :: bool

subsection \<open>64-bit floating point\<close>

text \<open>
  A \<open>float64\<close> is modelled by the real number it stands for. Every operation of the
  source on such numbers (conversion from an integer, addition, division) gives the
  exact result rounded to the nearest number with a significand of 53 bits, a tie going
  to the even significand. The exponent of a non-zero \<open>x\<close> is the \<open>e\<close> with
  \<open>2^e \<le> |x| < 2^(e+1)\<close>, found by halving or doubling. The bounds of the exponent
  (overflow, subnormal numbers) and the special values are left out: the meter divides
  64-bit integers by numbers between one and \<open>2^63\<close>, and every value it meets is zero
  or of a size between \<open>10^(-10)\<close> and \<open>2^64\<close>.
\<close>

function expo_hi :: "real \<Rightarrow> int" where
  "expo_hi x = (if 2 \<le> x then expo_hi (x / 2) + 1 else 0)"
  by pat_completeness auto
termination
proof (relation "measure (\<lambda>x. nat \<lfloor>x\<rfloor>)")
  show "wf (measure (\<lambda>x. nat \<lfloor>x\<rfloor>))" by simp
next
  fix x :: real
  assume "2 \<le> x"
  then have "x / 2 \<le> x - 1" by simp
  then have "\<lfloor>x / 2\<rfloor> \<le> \<lfloor>x - 1\<rfloor>" by (rule floor_mono)
  also have "\<dots> = \<lfloor>x\<rfloor> - 1" by simp
  finally have "\<lfloor>x / 2\<rfloor> < \<lfloor>x\<rfloor>" by simp
  moreover from \<open>2 \<le> x\<close> have "0 < \<lfloor>x\<rfloor>" by simp
  ultimately show "(x / 2, x) \<in> measure (\<lambda>x. nat \<lfloor>x\<rfloor>)" by simp
qed

function expo_lo :: "real \<Rightarrow> int" where
  "expo_lo x = (if 0 < x \<and> x < 1 then expo_lo (2 * x) - 1 else 0)"
  by pat_completeness auto
termination
proof (relation "measure (\<lambda>x. nat \<lceil>1 / x\<rceil>)")
  show "wf (measure (\<lambda>x. nat \<lceil>1 / x\<rceil>))" by simp
next
  fix x :: real
  assume a: "0 < x \<and> x < 1"
  then have "1 < 1 / x" by simp
  then have c2: "2 \<le> \<lceil>1 / x\<rceil>" by linarith
  have "1 / (2 * x) = (1 / x) / 2" by simp
  also have "\<dots> \<le> real_of_int \<lceil>1 / x\<rceil> / 2" by (simp add: divide_right_mono)
  also have "\<dots> \<le> real_of_int (\<lceil>1 / x\<rceil> - 1)" using c2 by simp
  finally have "\<lceil>1 / (2 * x)\<rceil> \<le> \<lceil>1 / x\<rceil> - 1" by (rule ceiling_le)
  with c2 have "nat \<lceil>1 / (2 * x)\<rceil> < nat \<lceil>1 / x\<rceil>" by linarith
  then show "(2 * x, x) \<in> measure (\<lambda>x. nat \<lceil>1 / x\<rceil>)" by simp
qed

declare expo_hi.simps [simp del] expo_lo.simps [simp del]

definition exponent :: "real \<Rightarrow> int" where
  "exponent x = (if \<bar>x\<bar> < 1 then expo_lo \<bar>x\<bar> else expo_hi \<bar>x\<bar>)"

text \<open>The nearest integer, a tie going to the even one.\<close>

definition round_even :: "real \<Rightarrow> int" where
  "round_even y =
     (let f = \<lfloor>y\<rfloor>; r = y - of_int f
      in if r < 1 / 2 then f else if 1 / 2 < r then f + 1 else if even f then f else f + 1)"

text \<open>
  Rounding to \<open>float64\<close>: the nearest multiple of \<open>2^(e-52)\<close>, where \<open>e\<close> is the
  exponent of the number.
\<close>

definition f64 :: "real \<Rightarrow> real" where
  "f64 x =
     (if x = 0 then 0
      else of_int (round_even (x / 2 powi (exponent x - 52))) * 2 powi (exponent x - 52))"

subsection \<open>Bitrate meter\<close>

text \<open>
  The arithmetic of 64-bit integers: addition wraps around, \<open>/\<close> and \<open>%\<close> truncate
  towards zero, and \<open>Time.Sub\<close> gives the difference of two instants as a
  \<open>Duration\<close>, the largest or smallest one when the difference does not fit.
\<close>

definition wrap64 :: "int \<Rightarrow> int" where
  "wrap64 x = (x + 2 ^ 63) mod 2 ^ 64 - 2 ^ 63"

definition go_quot :: "int \<Rightarrow> int \<Rightarrow> int" where
  "go_quot a b = sgn a * sgn b * (\<bar>a\<bar> div \<bar>b\<bar>)"

definition go_rem :: "int \<Rightarrow> int \<Rightarrow> int" where
  "go_rem a b = a - b * go_quot a b"

definition Sub :: "time \<Rightarrow> time \<Rightarrow> time" where
  "Sub t u = max (- (2 ^ 63)) (min (2 ^ 63 - 1) (t - u))"

text \<open>
  \<open>Duration.Seconds()\<close>, which is
  \<open>sec := d / Second; nsec := d % Second; return float64(sec) + float64(nsec)/1e9\<close>,
  and the conversion \<open>int64(x)\<close> of a \<open>float64\<close>, which drops the fraction (for an
  \<open>x\<close> outside the 64-bit integers Go leaves the result to the implementation; the
  model drops the fraction there too).
\<close>

definition Seconds :: "time \<Rightarrow> real" where
  "Seconds d =
     f64 (f64 (of_int (go_quot d 1000000000)) +
          f64 (f64 (of_int (go_rem d 1000000000)) / 1000000000))"

definition int64_of :: "real \<Rightarrow> int" where
  "int64_of x = (if 0 \<le> x then \<lfloor>x\<rfloor> else \<lceil>x\<rceil>)"

definition updateBitrate :: "time \<Rightarrow> int \<Rightarrow> Stream \<Rightarrow> Stream" where
  "updateBitrate now n s =
     (let s1 = s\<lparr>bytesTotal := wrap64 (bytesTotal s + n)\<rparr>;
          elapsed = Seconds (Sub now (lastUpdate s1))
      in if elapsed \<ge> 1
         then s1\<lparr>bitrate := int64_of (f64 (f64 (of_int (bytesTotal s1)) / elapsed)),
                 bytesTotal := 0,
                 lastUpdate := now\<rparr>
         else s1)"

definition GetBitrate :: "Stream \<Rightarrow> int" where
  "GetBitrate s = bitrate s"

text \<open>A run of meter updates, each at its own clock reading.\<close>

fun updates :: "(time \<times> int) list \<Rightarrow> Stream \<Rightarrow> Stream" where
  "updates [] s = s"
| "updates ((now, n) # us) s = updates us (updateBitrate now n s)"

subsection \<open>Codec parameters and segmenter start\<close>

definition SetVideoParams :: "bytes \<Rightarrow> bytes \<Rightarrow> Stream \<Rightarrow> Stream" where
  "SetVideoParams sps' pps' s = s\<lparr>sps := sps', pps := pps'\<rparr>"

definition SetAudioParams :: "int \<Rightarrow> int \<Rightarrow> Stream \<Rightarrow> Stream \<times> logline list" where
  "SetAudioParams sampleRate channelCount s =
     (s\<lparr>audioSampleRate := sampleRate, audioChannelCount := channelCount\<rparr>,
      [Log INFO ''Audio config set: SampleRate=%d, Channels=%d'' [AInt sampleRate, AInt channelCount]])"

text \<open>
  \<open>StartMuxer\<close>; \<open>now\<close> is the clock read after a successful start, \<open>start\<close> what
  \<open>Muxer.Start()\<close> does. The result is the returned error (\<open>None\<close> for nil).
\<close>

definition StartMuxer ::
  "time \<Rightarrow> outcome \<Rightarrow> Stream \<Rightarrow> string option ret \<times> Stream \<times> logline list" where
  "StartMuxer now start s =
     (if muxerReady s then (Return None, s, [])
      else
        let l1 = (if audioSampleRate s = 0
                  then [Log WARN ''Using default audio sample rate: 48kHz'' []] else []);
            sampleRate = (if audioSampleRate s = 0 then 48000 else audioSampleRate s);
            l2 = (if audioChannelCount s = 0
                  then [Log WARN ''Using default audio channels: stereo'' []] else []);
            channelCount = (if audioChannelCount s = 0 then 2 else audioChannelCount s);
            m = \<lparr>SPS = sps s, PPS = pps s, SampleRate = sampleRate,
                 ChannelCount = channelCount, calls = [MStart]\<rparr>;
            s1 = s\<lparr>Muxer := Some m\<rparr>
        in case start of
             Failure e \<Rightarrow> (Return (Some (''failed to start muxer: '' @ e)), s1, l1 @ l2)
           | Fault p \<Rightarrow> (Panicking p, s1, l1 @ l2)
           | Success \<Rightarrow>
               (Return None, s1\<lparr>ntpStart := now, muxerReady := True\<rparr>,
                l1 @ l2 @ [Log INFO ''HLS muxer started for stream: %s'' [AStr (Key s)]]))"


subsection \<open>Per-unit writes\<close>

text \<open>
  The body of \<open>WriteH264\<close> without its deferred recovery. \<open>now\<close> is the clock read by
  the meter, \<open>wr\<close> what \<open>Muxer.WriteH264\<close> does with the unit. The guard
  \<open>!s.muxerReady.Load() || s.Muxer == nil\<close> is the first two branches.
\<close>

definition WriteH264_body ::
  "time \<Rightarrow> outcome \<Rightarrow> time \<Rightarrow> time \<Rightarrow> bytes list \<Rightarrow> Stream \<Rightarrow> unit ret \<times> Stream \<times> logline list" where
  "WriteH264_body now wr pts dts au s =
     (case Muxer s of
        None \<Rightarrow> (Return (), s, [])
      | Some m0 \<Rightarrow>
          if \<not> muxerReady s then (Return (), s, [])
          else
            let totalBytes = foldl (\<lambda>t nalu. t + int (length nalu)) 0 au;
                s1 = updateBitrate now totalBytes s;
                s2 = s1\<lparr>Muxer := Some (mux_call (MWriteH264 (ntpStart s1 + pts) pts au) m0)\<rparr>
            in case wr of
                 Success \<Rightarrow> (Return (), s2, [])
               | Fault p \<Rightarrow> (Panicking p, s2, [])
               | Failure errStr \<Rightarrow>
                   (case contains errStr ''DTS is not monotonically'' of
                      None \<Rightarrow> (Panicking ''slice bounds out of range'', s2, [])
                    | Some True \<Rightarrow> (Return (), s2, [])
                    | Some False \<Rightarrow>
                        (case contains errStr ''unable to extract DTS'' of
                           None \<Rightarrow> (Panicking ''slice bounds out of range'', s2, [])
                         | Some True \<Rightarrow> (Return (), s2, [])
                         | Some False \<Rightarrow>
                             (Return (), s2, [Log ERROR ''Error writing H264: %v'' [AStr errStr]]))))"

text \<open>The deferred function: a panic of the body is recovered and logged.\<close>

definition WriteH264 ::
  "time \<Rightarrow> outcome \<Rightarrow> time \<Rightarrow> time \<Rightarrow> bytes list \<Rightarrow> Stream \<Rightarrow> unit ret \<times> Stream \<times> logline list" where
  "WriteH264 now wr pts dts au s =
     (case WriteH264_body now wr pts dts au s of
        (Panicking rec, s', l) \<Rightarrow> (Return (), s', l @ [Log ERROR ''WriteH264 panic: %v'' [AStr rec]])
      | (Return u, s', l) \<Rightarrow> (Return u, s', l))"

definition WriteAAC_body ::
  "time \<Rightarrow> outcome \<Rightarrow> time \<Rightarrow> bytes \<Rightarrow> Stream \<Rightarrow> unit ret \<times> Stream \<times> logline list" where
  "WriteAAC_body now wr pts au s =
     (case Muxer s of
        None \<Rightarrow> (Return (), s, [])
      | Some m0 \<Rightarrow>
          if \<not> muxerReady s then (Return (), s, [])
          else
            let s1 = updateBitrate now (int (length au)) s;
                s2 = s1\<lparr>Muxer := Some (mux_call (MWriteMPEG4Audio (ntpStart s1 + pts) pts [au]) m0)\<rparr>
            in case wr of
                 Success \<Rightarrow> (Return (), s2, [])
               | Fault p \<Rightarrow> (Panicking p, s2, [])
               | Failure errStr \<Rightarrow>
                   (Return (), s2, [Log ERROR ''Error writing AAC: %v'' [AStr errStr]]))"

definition WriteAAC ::
  "time \<Rightarrow> outcome \<Rightarrow> time \<Rightarrow> bytes \<Rightarrow> Stream \<Rightarrow> unit ret \<times> Stream \<times> logline list" where
  "WriteAAC now wr pts au s =
     (case WriteAAC_body now wr pts au s of
        (Panicking rec, s', l) \<Rightarrow> (Return (), s', l @ [Log ERROR ''WriteAAC panic: %v'' [AStr rec]])
      | (Return u, s', l) \<Rightarrow> (Return u, s', l))"

text \<open>The writes the segmenter has received, and the state of the bitrate meter.\<close>

definition mux_calls :: "Stream \<Rightarrow> muxcall list" where
  "mux_calls s = (case Muxer s of None \<Rightarrow> [] | Some m \<Rightarrow> calls m)"

definition meter :: "Stream \<Rightarrow> int \<times> time \<times> int" where
  "meter s = (bytesTotal s, lastUpdate s, bitrate s)"

section \<open>The stream manager (manager.go)\<close>

text \<open>
  A \<open>*Stream\<close> is an address into a store of stream objects; a new object is
  allocated behind the last one, and no object is ever freed while it can be referred
  to. The map of the manager is a list of key-address pairs with one pair per key; the
  order in which Go ranges over a map is not specified, the model takes the order of
  the list.
\<close>

type_synonym addr = nat

record world =
  streams :: "(string \<times> addr) list"
  hlsDir :: string
  heap :: "Stream list"
  logs :: "logline list"

definition NewManager :: "string \<Rightarrow> world" where
  "NewManager dir = \<lparr>streams = [], hlsDir = dir, heap = [], logs = []\<rparr>"

definition addlog :: "logline list \<Rightarrow> world \<Rightarrow> world" where
  "addlog l w = w\<lparr>logs := logs w @ l\<rparr>"

text \<open>
  \<open>GetOrCreateStream\<close>; \<open>now\<close> and \<open>now'\<close> are the two clock readings of the
  composite literal. The returned error is always nil.
\<close>

definition new_Stream :: "string \<Rightarrow> time \<Rightarrow> time \<Rightarrow> Stream" where
  "new_Stream streamKey now now' =
     \<lparr>Key = streamKey, Muxer = None, StartTime = now, Active = True, sps = [], pps = [],
      audioSampleRate = 0, audioChannelCount = 0, ntpStart = 0, muxerReady = False,
      bytesTotal = 0, lastUpdate = now', bitrate = 0\<rparr>"

definition GetOrCreateStream ::
  "string \<Rightarrow> time \<Rightarrow> time \<Rightarrow> world \<Rightarrow> (addr \<times> string option) \<times> world" where
  "GetOrCreateStream streamKey now now' w =
     (let e = map_of (streams w) streamKey
      in if e \<noteq> None \<and> Active (heap w ! the e) then ((the e, None), w)
         else
           let stream = length (heap w)
           in ((stream, None),
               addlog [Log INFO ''Stream created: %s'' [AStr streamKey]]
                 (w\<lparr>heap := heap w @ [new_Stream streamKey now now'],
                    streams := AList.update streamKey stream (streams w)\<rparr>)))"

text \<open>
  \<open>RemoveStream\<close>; \<open>cl\<close> is what \<open>s.Muxer.Close()\<close> does when it is called: it
  returns, or it panics. \<open>RemoveStream\<close> recovers nothing, so a panic of \<open>Close()\<close>
  leaves it (the deferred unlock runs) after the stream has been marked inactive and
  before the entry is deleted and the line is logged.
\<close>

definition RemoveStream :: "string \<Rightarrow> unit ret \<Rightarrow> world \<Rightarrow> unit ret \<times> world" where
  "RemoveStream streamKey cl w =
     (case map_of (streams w) streamKey of
        None \<Rightarrow> (Return (), w)
      | Some a \<Rightarrow>
          let s = (heap w ! a)\<lparr>Active := False\<rparr>
          in case Muxer s of
               None \<Rightarrow>
                 (Return (),
                  addlog [Log INFO ''Stream removed: %s'' [AStr streamKey]]
                    (w\<lparr>heap := (heap w)[a := s],
                       streams := AList.delete streamKey (streams w)\<rparr>))
             | Some m \<Rightarrow>
                 (case cl of
                    Panicking p \<Rightarrow>
                      (Panicking p,
                       w\<lparr>heap := (heap w)[a := s\<lparr>Muxer := Some (mux_call MClose m)\<rparr>]\<rparr>)
                  | Return u \<Rightarrow>
                      (Return (),
                       addlog [Log INFO ''Stream removed: %s'' [AStr streamKey]]
                         (w\<lparr>heap := (heap w)[a := s\<lparr>Muxer := Some (mux_call MClose m)\<rparr>],
                            streams := AList.delete streamKey (streams w)\<rparr>))))"

definition info_of :: "Stream \<Rightarrow> StreamInfo" where
  "info_of s = \<lparr>info_Key = Key s, info_StartTime = StartTime s, info_Bitrate = GetBitrate s,
                 info_Viewers = 0, info_Active = Active s\<rparr>"

definition GetStreamInfo :: "world \<Rightarrow> string \<Rightarrow> StreamInfo option" where
  "GetStreamInfo w streamKey =
     (case map_of (streams w) streamKey of Some a \<Rightarrow> Some (info_of (heap w ! a)) | None \<Rightarrow> None)"

definition GetAllStreams :: "world \<Rightarrow> StreamInfo list" where
  "GetAllStreams w =
     map (\<lambda>(k, a). info_of (heap w ! a)) (filter (\<lambda>(k, a). Active (heap w ! a)) (streams w))"

text \<open>\<open>GetStream\<close>: the stored pointer, or nil (\<open>None\<close>) for a key the map has not.\<close>

definition GetStream :: "world \<Rightarrow> string \<Rightarrow> addr option" where
  "GetStream w streamKey = map_of (streams w) streamKey"

definition StreamCount :: "world \<Rightarrow> nat" where
  "StreamCount w = length (filter (\<lambda>(k, a). Active (heap w ! a)) (streams w))"

text \<open>A method of the stream at address \<open>a\<close>, run in the store.\<close>

definition on_stream ::
  "addr \<Rightarrow> (Stream \<Rightarrow> 'r \<times> Stream \<times> logline list) \<Rightarrow> world \<Rightarrow> 'r \<times> world" where
  "on_stream a f w =
     (case f (heap w ! a) of (r, s', l) \<Rightarrow> (r, addlog l (w\<lparr>heap := (heap w)[a := s']\<rparr>)))"

section \<open>Serving bridge (hls.go)\<close>

text \<open>
  What the handler of \<open>/live/\<close> answers: 200 with an empty body, not found, or whatever
  the segmenter of the stream at an address answers to the request handed to it (what
  it answers is its own affair). The three CORS headers are set before every one of
  them.
\<close>

datatype response = StatusOK | NotFound | Delegated addr request

definition live_handler :: "request \<Rightarrow> world \<Rightarrow> response \<times> world" where
  "live_handler r w =
     (if Method r = ''OPTIONS'' then (StatusOK, w)
      else
        let path = TrimPrefix (URL_Path r) ''/live/'';
            parts = SplitN2 path (CHR ''/'')
        in if length parts < 1 then (NotFound, w)
           else
             let streamKey = parts ! 0
             in case GetStream w streamKey of
                  None \<Rightarrow> (NotFound, w)
                | Some a \<Rightarrow>
                    if \<not> Active (heap w ! a) then (NotFound, w)
                    else
                      (case Muxer (heap w ! a) of
                         None \<Rightarrow> (NotFound, w)
                       | Some m \<Rightarrow>
                           (Delegated a r,
                            w\<lparr>heap := (heap w)[a := (heap w ! a)\<lparr>Muxer := Some (mux_call (MHandle r) m)\<rparr>]\<rparr>)))"


section \<open>Ingest session (rtmp.go)\<close>

text \<open>
  What the transport library hands to a session: the codecs of the discovered tracks,
  and for every pass of the read loop either the observation that the server is no
  longer running, or a call of \<open>reader.Read()\<close>, which delivers units to the
  registered callbacks and then returns, fails or panics. A unit carries, besides its
  timestamps and payload, the clock reading of the meter and what the segmenter does
  with it. The read deadlines are settings of the connection: an expired deadline is a
  \<open>Read\<close> that fails. The last input is what \<open>Close()\<close> of the segmenter does
  when the teardown calls it.
\<close>

datatype codec = H264 bytes bytes | MPEG4Audio int int | OtherCodec

datatype unit_ev =
    VideoUnit time time "bytes list" time outcome
  | AudioUnit time bytes time outcome

datatype loop_ev = Stopped | Read "unit_ev list" outcome

record session_env =
  URL :: "string option"
  RemoteAddr :: string
  create_now :: time
  create_now' :: time
  init :: outcome
  Tracks :: "codec list"
  start_now :: time
  start :: outcome
  events :: "loop_ev list"
  close :: "unit ret"

text \<open>
  The loop over the tracks. The pair of flags says whether an H264 track and whether an
  AAC track has been seen, that is, whether the video and the audio callback are
  registered.
\<close>

fun discover :: "string \<Rightarrow> addr \<Rightarrow> codec list \<Rightarrow> bool \<times> bool \<Rightarrow> world \<Rightarrow> (bool \<times> bool) \<times> world" where
  "discover streamKey a [] flags w = (flags, w)"
| "discover streamKey a (H264 SPS' PPS' # ts) (hasVideo, hasAudio) w =
     (let w1 = addlog [Log INFO ''Stream %s: H264 video track detected'' [AStr streamKey]] w;
          w2 = (if length SPS' > 0 \<and> length PPS' > 0
                then snd (on_stream a (\<lambda>s. ((), SetVideoParams SPS' PPS' s, [])) w1)
                else w1)
      in discover streamKey a ts (True, hasAudio) w2)"
| "discover streamKey a (MPEG4Audio sampleRate channelCount # ts) (hasVideo, hasAudio) w =
     (let w1 = addlog [Log INFO ''Stream %s: AAC audio track detected (SampleRate=%d, Channels=%d)''
                         [AStr streamKey, AInt sampleRate, AInt channelCount]] w;
          w2 = snd (on_stream a (\<lambda>s. case SetAudioParams sampleRate channelCount s of
                                         (s', l) \<Rightarrow> ((), s', l)) w1)
      in discover streamKey a ts (hasVideo, True) w2)"
| "discover streamKey a (OtherCodec # ts) flags w = discover streamKey a ts flags w"

text \<open>One \<open>reader.Read()\<close> hands its units to the callbacks, in order.\<close>

fun deliver :: "addr \<Rightarrow> bool \<times> bool \<Rightarrow> unit_ev list \<Rightarrow> world \<Rightarrow> unit ret \<times> world" where
  "deliver a flags [] w = (Return (), w)"
| "deliver a flags (VideoUnit pts dts au now wr # us) w =
     (if fst flags
      then (case on_stream a (WriteH264 now wr pts dts au) w of
              (Return u, w') \<Rightarrow> deliver a flags us w'
            | (Panicking p, w') \<Rightarrow> (Panicking p, w'))
      else deliver a flags us w)"
| "deliver a flags (AudioUnit pts au now wr # us) w =
     (if snd flags
      then (case on_stream a (WriteAAC now wr pts au) w of
              (Return u, w') \<Rightarrow> deliver a flags us w'
            | (Panicking p, w') \<Rightarrow> (Panicking p, w'))
      else deliver a flags us w)"

text \<open>
  The read loop. It ends when the server is seen stopped or when \<open>Read\<close> fails or
  panics; while the events at hand do not end it, it has not returned (\<open>None\<close>).
\<close>

fun read_loop ::
  "string \<Rightarrow> addr \<Rightarrow> bool \<times> bool \<Rightarrow> loop_ev list \<Rightarrow> world \<Rightarrow> (unit ret \<times> world) option" where
  "read_loop streamKey a flags [] w = None"
| "read_loop streamKey a flags (Stopped # evs) w = Some (Return (), w)"
| "read_loop streamKey a flags (Read us res # evs) w =
     (case deliver a flags us w of
        (Panicking p, w') \<Rightarrow> Some (Panicking p, w')
      | (Return u, w') \<Rightarrow>
          (case res of
             Success \<Rightarrow> read_loop streamKey a flags evs w'
           | Failure e \<Rightarrow>
               Some (Return (), addlog [Log INFO ''Stream %s ended: %v'' [AStr streamKey, AStr e]] w')
           | Fault p \<Rightarrow> Some (Panicking p, w')))"

text \<open>\<open>handlePublisher\<close> from the creation of the reader on, without the deferred teardown.\<close>

definition handlePublisher_body ::
  "session_env \<Rightarrow> string \<Rightarrow> addr \<Rightarrow> world \<Rightarrow> (unit ret \<times> world) option" where
  "handlePublisher_body env streamKey a w =
     (case init env of
        Failure e \<Rightarrow> Some (Return (), addlog [Log ERROR ''Failed to initialize reader: %v'' [AStr e]] w)
      | Fault p \<Rightarrow> Some (Panicking p, w)
      | Success \<Rightarrow>
          let w1 = addlog [Log INFO ''Stream %s has %d tracks''
                             [AStr streamKey, AInt (int (length (Tracks env)))]] w;
              (flags, w2) = discover streamKey a (Tracks env) (False, False) w1;
              hasVideo = fst flags;
              w3 = (if \<not> hasVideo
                    then addlog [Log WARN ''Stream %s: No H264 video track found'' [AStr streamKey]] w2
                    else w2)
          in if hasVideo
             then (case on_stream a (StartMuxer (start_now env) (start env)) w3 of
                     (Panicking p, w4) \<Rightarrow> Some (Panicking p, w4)
                   | (Return (Some err), w4) \<Rightarrow>
                       Some (Return (),
                             addlog [Log ERROR ''Failed to start HLS muxer for %s: %v''
                                       [AStr streamKey, AStr err]] w4)
                   | (Return None, w4) \<Rightarrow> read_loop streamKey a flags (events env) w4)
             else read_loop streamKey a flags (events env) w3)"

text \<open>
  The deferred function of \<open>handlePublisher\<close>: \<open>RemoveStream\<close>, then a log line. A
  panic of \<open>RemoveStream\<close> skips the line.
\<close>

definition teardown :: "string \<Rightarrow> unit ret \<Rightarrow> world \<Rightarrow> unit ret \<times> world" where
  "teardown streamKey cl w =
     (case RemoveStream streamKey cl w of
        (Panicking p, w') \<Rightarrow> (Panicking p, w')
      | (Return u, w') \<Rightarrow>
          (Return (), addlog [Log INFO ''Publisher disconnected: %s'' [AStr streamKey]] w'))"

definition session_key :: "session_env \<Rightarrow> string" where
  "session_key env = (case URL env of Some path \<Rightarrow> extractStreamKey path | None \<Rightarrow> ''default'')"

definition handlePublisher :: "session_env \<Rightarrow> world \<Rightarrow> (unit ret \<times> world) option" where
  "handlePublisher env w =
     (let streamKey = session_key env;
          w0 = (case URL env of
                  Some path \<Rightarrow> w
                | None \<Rightarrow> addlog [Log WARN ''No URL in RTMP connection, using default stream key'' []] w);
          w1 = addlog [Log INFO ''Publisher connected: %s from %s''
                         [AStr streamKey, AStr (RemoteAddr env)]] w0
      in case GetOrCreateStream streamKey (create_now env) (create_now' env) w1 of
           ((stream, Some err), w2) \<Rightarrow>
             Some (Return (), addlog [Log ERROR ''Failed to create stream: %v'' [AStr err]] w2)
         | ((stream, None), w2) \<Rightarrow>
             (case handlePublisher_body env streamKey stream w2 of
                None \<Rightarrow> None
              | Some (r, w3) \<Rightarrow>
                  (case teardown streamKey (close env) w3 of
                     (Panicking p, w4) \<Rightarrow> Some (Panicking p, w4)
                   | (Return u, w4) \<Rightarrow> Some (r, w4))))"

text \<open>The log lines a run has added, and how often a format occurs among them.\<close>

definition added_logs :: "world \<Rightarrow> world \<Rightarrow> logline list" where
  "added_logs w w' = drop (length (logs w)) (logs w')"

fun has_format :: "string \<Rightarrow> logline \<Rightarrow> bool" where
  "has_format f (Log lv f' args) = (f' = f)"

definition count_format :: "string \<Rightarrow> logline list \<Rightarrow> nat" where
  "count_format f l = length (filter (has_format f) l)"

text \<open>
  A pass of the read loop ends the loop when the server is seen stopped or when
  \<open>reader.Read()\<close> does not return normally.
\<close>

fun ends :: "loop_ev \<Rightarrow> bool" where
  "ends Stopped = True"
| "ends (Read us Success) = False"
| "ends (Read us (Failure e)) = True"
| "ends (Read us (Fault p)) = True"

text \<open>
  Log lines other than the two of the teardown, and what the part of a session between
  \<open>GetOrCreateStream\<close> and the teardown may do to the world: it leaves the map of the
  manager and the size of the store alone and adds only such lines to the log.
\<close>

definition quiet :: "logline list \<Rightarrow> bool" where
  "quiet l = (count_format ''Stream removed: %s'' l = 0 \<and>
              count_format ''Publisher disconnected: %s'' l = 0)"

definition extends :: "world \<Rightarrow> world \<Rightarrow> bool" where
  "extends w w' =
     (streams w' = streams w \<and> length (heap w') = length (heap w) \<and>
      (\<exists>l. logs w' = logs w @ l \<and> quiet l))"

section \<open>Runs of the server\<close>

text \<open>
  The operations that change the manager's map or a stream object. A session calls the
  methods of a stream only through a pointer it got from \<open>GetOrCreateStream\<close>, so an
  operation on an address that is not allocated does not occur: it is a step that
  changes nothing.
\<close>

datatype op =
    OpGetOrCreateStream string time time
  | OpRemoveStream string "unit ret"
  | OpSetVideoParams addr bytes bytes
  | OpSetAudioParams addr int int
  | OpStartMuxer addr time outcome
  | OpWriteH264 addr time outcome time time "bytes list"
  | OpWriteAAC addr time outcome time bytes
  | OpLiveRequest request

fun step :: "op \<Rightarrow> world \<Rightarrow> world" where
  "step (OpGetOrCreateStream k now now') w = snd (GetOrCreateStream k now now' w)"
| "step (OpRemoveStream k cl) w = snd (RemoveStream k cl w)"
| "step (OpSetVideoParams a SPS' PPS') w =
     (if a < length (heap w) then snd (on_stream a (\<lambda>s. ((), SetVideoParams SPS' PPS' s, [])) w) else w)"
| "step (OpSetAudioParams a sampleRate channelCount) w =
     (if a < length (heap w)
      then snd (on_stream a (\<lambda>s. case SetAudioParams sampleRate channelCount s of
                                     (s', l) \<Rightarrow> ((), s', l)) w)
      else w)"
| "step (OpStartMuxer a now st) w =
     (if a < length (heap w) then snd (on_stream a (StartMuxer now st) w) else w)"
| "step (OpWriteH264 a now wr pts dts au) w =
     (if a < length (heap w) then snd (on_stream a (WriteH264 now wr pts dts au) w) else w)"
| "step (OpWriteAAC a now wr pts au) w =
     (if a < length (heap w) then snd (on_stream a (WriteAAC now wr pts au) w) else w)"
| "step (OpLiveRequest r) w = snd (live_handler r w)"

text \<open>The steps in which \<open>Close()\<close> of the segmenter, if it is called, returns.\<close>

fun close_returns :: "op \<Rightarrow> bool" where
  "close_returns (OpRemoveStream k (Panicking p)) = False"
| "close_returns x = True"

fun run :: "op list \<Rightarrow> world \<Rightarrow> world" where
  "run [] w = w"
| "run (x # xs) w = run xs (step x w)"

text \<open>
  The well-formedness of a manager and its store: one pair per key, no two keys sharing
  an object, every stored pointer allocated, and every stored stream active.
\<close>

definition wf_world :: "world \<Rightarrow> bool" where
  "wf_world w =
     (distinct (map fst (streams w)) \<and> distinct (map snd (streams w)) \<and>
      list_all (\<lambda>(k, a). a < length (heap w) \<and> Active (heap w ! a)) (streams w))"

text \<open>The segmenter is present on every stream whose ready flag is set.\<close>

definition ready_inv :: "Stream \<Rightarrow> bool" where
  "ready_inv s = (muxerReady s \<longrightarrow> Muxer s \<noteq> None)"

section \<open>The substring test is the substring predicate\<close>

lemma go_slice_in_range:
  "0 \<le> i \<Longrightarrow> i \<le> int (length s) - int n \<Longrightarrow>
   go_slice s i (i + int n) = Some (take n (drop (nat i) s))"
  by (simp add: go_slice_def)

text \<open>
  From a non-negative index on, the loop never slices out of range, and it answers
  whether the pattern stands at some position from there on.
\<close>

lemma containsAt_loop_char:
  "0 \<le> i \<Longrightarrow>
   containsAt_loop s substr i =
     Some (\<exists>j. nat i \<le> j \<and> j + length substr \<le> length s \<and> take (length substr) (drop j s) = substr)"
proof (induction s substr i rule: containsAt_loop.induct)
  case (1 s substr i)
  show ?case
  proof (cases "i \<le> int (length s) - int (length substr)")
    case False
    then have "\<not> (\<exists>j. nat i \<le> j \<and> j + length substr \<le> length s \<and> take (length substr) (drop j s) = substr)"
      using 1(2) by auto
    with False show ?thesis
      by (subst containsAt_loop.simps) simp
  next
    case True
    note sl = go_slice_in_range [OF 1(2) True]
    show ?thesis
    proof (cases "take (length substr) (drop (nat i) s) = substr")
      case hit: True
      have "nat i + length substr \<le> length s" using True 1(2) by linarith
      with hit have "\<exists>j. nat i \<le> j \<and> j + length substr \<le> length s \<and> take (length substr) (drop j s) = substr"
        by blast
      with True sl hit show ?thesis
        by (subst containsAt_loop.simps) simp
    next
      case miss: False
      have ih: "containsAt_loop s substr (i + 1) =
         Some (\<exists>j. nat (i + 1) \<le> j \<and> j + length substr \<le> length s \<and> take (length substr) (drop j s) = substr)"
        using 1(1) [OF True sl] miss 1(2) by simp
      have "(\<exists>j. nat (i + 1) \<le> j \<and> j + length substr \<le> length s \<and> take (length substr) (drop j s) = substr)
          = (\<exists>j. nat i \<le> j \<and> j + length substr \<le> length s \<and> take (length substr) (drop j s) = substr)"
      proof -
        have "nat (i + 1) = Suc (nat i)" using 1(2) by simp
        then show ?thesis
          using miss by (metis Suc_leD Suc_le_eq le_neq_implies_less)
      qed
      with ih True sl miss show ?thesis
        by (subst containsAt_loop.simps) simp
    qed
  qed
qed

lemma sublist_take_drop:
  "sublist xs ys \<longleftrightarrow> (\<exists>j. j + length xs \<le> length ys \<and> take (length xs) (drop j ys) = xs)"
proof
  assume "sublist xs ys"
  then obtain ps ss where "ys = ps @ xs @ ss" by (auto simp: sublist_def)
  then have "length ps + length xs \<le> length ys \<and> take (length xs) (drop (length ps) ys) = xs"
    by simp
  then show "\<exists>j. j + length xs \<le> length ys \<and> take (length xs) (drop j ys) = xs" by blast
next
  assume "\<exists>j. j + length xs \<le> length ys \<and> take (length xs) (drop j ys) = xs"
  then obtain j where j: "j + length xs \<le> length ys" "take (length xs) (drop j ys) = xs" by blast
  have "ys = take j ys @ drop j ys" by simp
  also have "drop j ys = take (length xs) (drop j ys) @ drop (length xs) (drop j ys)"
    by (simp only: append_take_drop_id)
  finally have "ys = take j ys @ take (length xs) (drop j ys) @ drop (length xs) (drop j ys)" .
  with j(2) have "ys = take j ys @ xs @ drop (length xs) (drop j ys)" by simp
  then show "sublist xs ys" unfolding sublist_def by blast
qed

lemma containsAt_sublist: "containsAt s substr = Some (sublist substr s)"
  by (simp add: containsAt_def containsAt_loop_char sublist_take_drop)

lemma contains_sublist: "contains s substr = Some (sublist substr s)"
proof (cases "length substr \<le> length s")
  case False
  then have "\<not> sublist substr s"
    by (auto simp: sublist_def)
  with False show ?thesis by (simp add: contains_def)
next
  case le: True
  show ?thesis
  proof (cases "s = substr")
    case True
    then show ?thesis by (simp add: contains_def)
  next
    case ne: False
    show ?thesis
    proof (cases "length s > 0")
      case True
      with ne le show ?thesis
        by (simp add: contains_def containsAt_sublist)
    next
      case False
      with ne le show ?thesis by (simp add: contains_def)
    qed
  qed
qed

text \<open>
  C10. For all strings \<open>s\<close> and \<open>substr\<close>, \<open>contains(s, substr)\<close> returns (it never
  panics on a slice out of range), and it returns true exactly when \<open>substr\<close> occurs as
  a contiguous substring of \<open>s\<close>, the empty string being a substring of every string:
  it is the predicate \<open>strings.Contains\<close>.
\<close>

theorem contains_is_substring:
  "contains s substr = Some (\<exists>ps ss. s = ps @ substr @ ss) \<and> contains s [] = Some True"
proof
  show "contains s substr = Some (\<exists>ps ss. s = ps @ substr @ ss)"
    using contains_sublist [of s substr] by (simp add: sublist_def)
  show "contains s [] = Some True"
    using contains_sublist [of s "[]"] by simp
qed

section \<open>Stream-key extraction\<close>

lemma Split_absent: "c \<notin> set s \<Longrightarrow> Split s c = [s]"
  by (subst Split.simps) simp

lemma Split_present:
  "c \<in> set s \<Longrightarrow>
   Split s c = takeWhile (\<lambda>x. x \<noteq> c) s # Split (tl (dropWhile (\<lambda>x. x \<noteq> c) s)) c"
  by (subst Split.simps) simp

lemma cut_at_first:
  "c \<in> set s \<Longrightarrow> s = takeWhile (\<lambda>x. x \<noteq> c) s @ c # tl (dropWhile (\<lambda>x. x \<noteq> c) s)"
proof -
  assume "c \<in> set s"
  then have ne: "dropWhile (\<lambda>x. x \<noteq> c) s \<noteq> []" by simp
  then have "hd (dropWhile (\<lambda>x. x \<noteq> c) s) = c"
    using hd_dropWhile [of "\<lambda>x. x \<noteq> c" s] by simp
  with ne have "dropWhile (\<lambda>x. x \<noteq> c) s = c # tl (dropWhile (\<lambda>x. x \<noteq> c) s)"
    by (cases "dropWhile (\<lambda>x. x \<noteq> c) s") simp_all
  then show ?thesis
    using takeWhile_dropWhile_id [of "\<lambda>x. x \<noteq> c" s] by simp
qed

lemma Split_not_Nil: "Split s c \<noteq> []"
  by (subst Split.simps) simp

lemma Split_length_ge2: "2 \<le> length (Split s c) \<longleftrightarrow> c \<in> set s"
proof (cases "c \<in> set s")
  case True
  have "Split (tl (dropWhile (\<lambda>x. x \<noteq> c) s)) c \<noteq> []" by (rule Split_not_Nil)
  then have "1 \<le> length (Split (tl (dropWhile (\<lambda>x. x \<noteq> c) s)) c)"
    by (cases "Split (tl (dropWhile (\<lambda>x. x \<noteq> c) s)) c") simp_all
  with True show ?thesis by (simp add: Split_present)
next
  case False
  then show ?thesis by (simp add: Split_absent)
qed

lemma Split_join: "concat (map ((#) c) (Split s c)) = c # s"
proof (induction s c rule: Split.induct)
  case (1 s c)
  show ?case
  proof (cases "c \<in> set s")
    case True
    with 1 have "concat (map ((#) c) (Split (tl (dropWhile (\<lambda>x. x \<noteq> c) s)) c))
        = c # tl (dropWhile (\<lambda>x. x \<noteq> c) s)" by simp
    with True cut_at_first [OF True] show ?thesis
      by (simp add: Split_present)
  next
    case False
    then show ?thesis by (simp add: Split_absent)
  qed
qed

lemma Split_parts_free: "p \<in> set (Split s c) \<Longrightarrow> c \<notin> set p"
proof (induction s c arbitrary: p rule: Split.induct)
  case (1 s c)
  show ?case
  proof (cases "c \<in> set s")
    case True
    from 1(2) True have "p = takeWhile (\<lambda>x. x \<noteq> c) s \<or> p \<in> set (Split (tl (dropWhile (\<lambda>x. x \<noteq> c) s)) c)"
      by (simp add: Split_present)
    then show ?thesis
    proof
      assume "p = takeWhile (\<lambda>x. x \<noteq> c) s"
      then show ?thesis using set_takeWhileD [of c "\<lambda>x. x \<noteq> c" s] by auto
    next
      assume "p \<in> set (Split (tl (dropWhile (\<lambda>x. x \<noteq> c) s)) c)"
      with 1(1) [OF True] show ?thesis by simp
    qed
  next
    case False
    with 1(2) show ?thesis by (simp add: Split_absent)
  qed
qed

lemma Split_last: "c \<in> set s \<Longrightarrow> \<exists>pre. s = pre @ c # last (Split s c)"
proof (induction s c rule: Split.induct)
  case (1 s c)
  let ?r = "tl (dropWhile (\<lambda>x. x \<noteq> c) s)"
  have last_eq: "last (Split s c) = last (Split ?r c)"
    using 1(2) Split_not_Nil [of ?r c] by (simp add: Split_present)
  show ?case
  proof (cases "c \<in> set ?r")
    case True
    with 1 obtain pre where "?r = pre @ c # last (Split ?r c)" by blast
    with cut_at_first [OF 1(2)] last_eq
    have "s = (takeWhile (\<lambda>x. x \<noteq> c) s @ c # pre) @ c # last (Split s c)" by simp
    then show ?thesis by blast
  next
    case False
    then have "last (Split ?r c) = ?r" by (simp add: Split_absent)
    with cut_at_first [OF 1(2)] last_eq
    have "s = takeWhile (\<lambda>x. x \<noteq> c) s @ c # last (Split s c)" by simp
    then show ?thesis by blast
  qed
qed

lemma TrimPrefix_slash:
  "TrimPrefix path ''/'' = (case path of [] \<Rightarrow> [] | x # xs \<Rightarrow> if x = CHR ''/'' then xs else path)"
  by (cases path) (simp_all add: TrimPrefix_def)

lemma extractStreamKey_segments:
  assumes "p = (case path of [] \<Rightarrow> [] | x # xs \<Rightarrow> if x = CHR ''/'' then xs else path)"
    and "segs = Split p (CHR ''/'')"
  shows "extractStreamKey path =
           (if 2 \<le> length segs then last segs
            else if length segs = 1 \<and> hd segs \<noteq> [] then hd segs
            else ''default'')"
proof -
  have ne: "segs \<noteq> []" by (simp add: assms(2) Split_not_Nil)
  have tp: "TrimPrefix path ''/'' = p" by (simp add: assms(1) TrimPrefix_slash)
  have idx: "segs ! (length segs - 1) = last segs" "segs ! 0 = hd segs"
    using ne by (simp_all add: last_conv_nth hd_conv_nth)
  show ?thesis
    unfolding extractStreamKey_def tp Let_def assms(2) [symmetric] idx by simp
qed

lemma extractStreamKey_last:
  assumes "p = (case path of [] \<Rightarrow> [] | x # xs \<Rightarrow> if x = CHR ''/'' then xs else path)"
    and "CHR ''/'' \<in> set p"
  shows "(\<exists>pre. p = pre @ CHR ''/'' # extractStreamKey path) \<and>
         CHR ''/'' \<notin> set (extractStreamKey path)"
proof -
  let ?segs = "Split p (CHR ''/'')"
  from assms(2) have "2 \<le> length ?segs" by (simp add: Split_length_ge2)
  then have key: "extractStreamKey path = last ?segs"
    using extractStreamKey_segments [OF assms(1) refl] by simp
  have "last ?segs \<in> set ?segs" using Split_not_Nil by (rule last_in_set)
  then have "CHR ''/'' \<notin> set (last ?segs)" by (rule Split_parts_free)
  with key Split_last [OF assms(2)] show ?thesis by simp
qed

lemma extractStreamKey_single:
  assumes "p = (case path of [] \<Rightarrow> [] | x # xs \<Rightarrow> if x = CHR ''/'' then xs else path)"
    and "CHR ''/'' \<notin> set p"
  shows "extractStreamKey path = (if p = [] then ''default'' else p)"
proof -
  from assms(2) have "Split p (CHR ''/'') = [p]" by (simp add: Split_absent)
  then show ?thesis
    using extractStreamKey_segments [OF assms(1) refl] by simp
qed

text \<open>
  C3. \<open>extractStreamKey\<close> is a total function of the path alone. With \<open>p\<close> the path
  without one leading slash and \<open>segs\<close> the segments of \<open>p\<close> between slashes (joining
  them with slashes gives \<open>p\<close> back, and no segment has a slash), the key is the last
  segment when there are two or more, the single segment when there is exactly one and
  it is not empty, and \<open>default\<close> otherwise. So when \<open>p\<close> has a slash the key is the text
  behind its last slash, and when it has none the key is \<open>p\<close>, or \<open>default\<close> for the
  empty \<open>p\<close>. In particular \<open>/live/abc\<close> and \<open>/abc\<close> give \<open>abc\<close>, and \<open>/\<close> and the empty
  path give \<open>default\<close>.
\<close>

theorem extractStreamKey_spec:
  "(let p = (case path of [] \<Rightarrow> [] | x # xs \<Rightarrow> if x = CHR ''/'' then xs else path);
        segs = Split p (CHR ''/'')
    in TrimPrefix path ''/'' = p \<and>
       concat (map ((#) (CHR ''/'')) segs) = CHR ''/'' # p \<and>
       (\<forall>seg \<in> set segs. CHR ''/'' \<notin> set seg) \<and>
       extractStreamKey path =
         (if 2 \<le> length segs then last segs
          else if length segs = 1 \<and> hd segs \<noteq> [] then hd segs
          else ''default'') \<and>
       (CHR ''/'' \<in> set p \<longrightarrow>
          (\<exists>pre. p = pre @ CHR ''/'' # extractStreamKey path) \<and>
          CHR ''/'' \<notin> set (extractStreamKey path)) \<and>
       (CHR ''/'' \<notin> set p \<longrightarrow> extractStreamKey path = (if p = [] then ''default'' else p))) \<and>
   extractStreamKey ''/live/abc'' = ''abc'' \<and>
   extractStreamKey ''/abc'' = ''abc'' \<and>
   extractStreamKey ''/'' = ''default'' \<and>
   extractStreamKey '''' = ''default''"
proof -
  have examples:
    "extractStreamKey ''/live/abc'' = ''abc''" "extractStreamKey ''/abc'' = ''abc''"
    "extractStreamKey ''/'' = ''default''" "extractStreamKey '''' = ''default''"
    by (simp_all add: extractStreamKey_def TrimPrefix_def Split.simps)
  show ?thesis
    unfolding Let_def
    using extractStreamKey_segments [OF refl refl, of path]
      extractStreamKey_last [OF refl, of path] extractStreamKey_single [OF refl, of path]
      Split_parts_free examples
    by (simp add: TrimPrefix_slash Split_join)
qed

theorem extractStreamKey_spec_witness:
  "CHR ''/'' \<in> set ''app/streamkey'' \<and>
   extractStreamKey ''/app/streamkey'' = ''streamkey'' \<and>
   Split ''app/streamkey'' (CHR ''/'') = [''app'', ''streamkey''] \<and>
   (\<exists>pre. ''app/streamkey'' = pre @ CHR ''/'' # extractStreamKey ''/app/streamkey'')"
  using extractStreamKey_spec [of "''/app/streamkey''"]
  by (simp add: Let_def Split.simps)

section \<open>Bitrate meter\<close>

lemma expo_hi_bounds: "1 \<le> x \<Longrightarrow> 2 powi expo_hi x \<le> x \<and> x < 2 powi (expo_hi x + 1)"
proof (induction x rule: expo_hi.induct)
  case (1 x)
  show ?case
  proof (cases "2 \<le> x")
    case True
    then have "1 \<le> x / 2" by simp
    with 1(1) [OF True] have ih: "2 powi expo_hi (x / 2) \<le> x / 2" "x / 2 < 2 powi (expo_hi (x / 2) + 1)"
      by simp_all
    have e: "expo_hi x = expo_hi (x / 2) + 1" using True by (subst expo_hi.simps) simp
    have "2 powi (expo_hi (x / 2) + 1) = 2 powi expo_hi (x / 2) * (2::real)"
      by (simp add: power_int_add)
    moreover have "2 powi (expo_hi (x / 2) + 1 + 1) = 2 powi (expo_hi (x / 2) + 1) * (2::real)"
      by (simp add: power_int_add)
    ultimately show ?thesis using ih by (simp add: e)
  next
    case False
    then have "expo_hi x = 0" by (subst expo_hi.simps) simp
    with False 1(2) show ?thesis by simp
  qed
qed

lemma expo_lo_bounds: "0 < x \<Longrightarrow> x < 1 \<Longrightarrow> 2 powi expo_lo x \<le> x \<and> x < 2 powi (expo_lo x + 1)"
proof (induction x rule: expo_lo.induct)
  case (1 x)
  from 1(2,3) have c: "0 < x \<and> x < 1" by simp
  have e: "expo_lo x = expo_lo (2 * x) - 1" using c by (subst expo_lo.simps) simp
  show ?case
  proof (cases "2 * x < 1")
    case True
    with 1(1) [OF c] c have ih: "2 powi expo_lo (2 * x) \<le> 2 * x" "2 * x < 2 powi (expo_lo (2 * x) + 1)"
      by simp_all
    have "2 powi expo_lo (2 * x) = 2 powi (expo_lo (2 * x) - 1) * (2::real)"
      by (simp add: power_int_diff)
    moreover have "2 powi (expo_lo (2 * x) + 1) = 2 powi expo_lo (2 * x) * (2::real)"
      by (simp add: power_int_add)
    ultimately show ?thesis using ih by (simp add: e)
  next
    case False
    then have "expo_lo (2 * x) = 0" by (subst expo_lo.simps) simp
    with False c show ?thesis by (simp add: e power_int_minus)
  qed
qed

lemma exponent_bounds:
  assumes "x \<noteq> 0"
  shows "2 powi exponent x \<le> \<bar>x\<bar> \<and> \<bar>x\<bar> < 2 powi (exponent x + 1)"
proof (cases "\<bar>x\<bar> < 1")
  case True
  with assms expo_lo_bounds [of "\<bar>x\<bar>"] show ?thesis by (simp add: exponent_def)
next
  case False
  with expo_hi_bounds [of "\<bar>x\<bar>"] show ?thesis by (simp add: exponent_def)
qed


lemma round_even_int [simp]: "round_even (of_int k) = k"
  by (simp add: round_even_def)

lemma round_even_near: "\<bar>of_int (round_even y) - y\<bar> \<le> 1 / 2"
  unfolding round_even_def Let_def by (auto simp: abs_if) linarith+

lemma round_even_mono: "y \<le> z \<Longrightarrow> round_even y \<le> round_even z"
proof -
  assume yz: "y \<le> z"
  show ?thesis
  proof (cases "\<lfloor>y\<rfloor> = \<lfloor>z\<rfloor>")
    case True
    with yz show ?thesis
      unfolding round_even_def Let_def by auto
  next
    case False
    with yz have lt: "\<lfloor>y\<rfloor> + 1 \<le> \<lfloor>z\<rfloor>" using floor_mono [OF yz] by linarith
    have "round_even y \<le> \<lfloor>y\<rfloor> + 1" unfolding round_even_def Let_def by auto
    moreover have "\<lfloor>z\<rfloor> \<le> round_even z" unfolding round_even_def Let_def by auto
    ultimately show ?thesis using lt by linarith
  qed
qed

lemma f64_pos_bounds:
  assumes "0 < x"
  shows "2 powi exponent x \<le> f64 x \<and> f64 x \<le> 2 powi (exponent x + 1)"
proof -
  let ?e = "exponent x"
  let ?q = "2 powi (?e - 52) :: real"
  have q: "0 < ?q" by simp
  from assms exponent_bounds [of x] have b: "2 powi ?e \<le> x" "x < 2 powi (?e + 1)" by simp_all
  have lo: "2 powi ?e = of_int (2 ^ 52) * ?q"
    by (simp add: power_int_diff)
  have hi: "2 powi (?e + 1) = of_int (2 ^ 53) * ?q"
    by (simp add: power_int_diff power_int_add)
  have "of_int (2 ^ 52) \<le> x / ?q" using b(1) q unfolding lo by (simp add: pos_le_divide_eq)
  then have "round_even (of_int (2 ^ 52)) \<le> round_even (x / ?q)" by (rule round_even_mono)
  then have l: "2 ^ 52 \<le> round_even (x / ?q)" by (simp only: round_even_int)
  have "x / ?q \<le> of_int (2 ^ 53)" using b(2) q unfolding hi by (simp add: pos_divide_le_eq)
  then have "round_even (x / ?q) \<le> round_even (of_int (2 ^ 53))" by (rule round_even_mono)
  then have h: "round_even (x / ?q) \<le> 2 ^ 53" by (simp only: round_even_int)
  have f: "f64 x = of_int (round_even (x / ?q)) * ?q" using assms by (simp add: f64_def)
  have "of_int (2 ^ 52) * ?q \<le> of_int (round_even (x / ?q)) * ?q"
    using l q by (intro mult_right_mono) (simp_all add: of_int_le_iff [symmetric] del: of_int_le_iff)
  moreover have "of_int (round_even (x / ?q)) * ?q \<le> of_int (2 ^ 53) * ?q"
    using h q by (intro mult_right_mono) (simp_all add: of_int_le_iff [symmetric] del: of_int_le_iff)
  ultimately show ?thesis unfolding f lo hi by simp
qed

lemma f64_zero [simp]: "f64 0 = 0"
  by (simp add: f64_def)

lemma f64_nonneg: "0 \<le> x \<Longrightarrow> 0 \<le> f64 x"
proof (cases "x = 0")
  case False
  assume "0 \<le> x"
  with False have "0 < x" by simp
  from f64_pos_bounds [OF this] have "2 powi exponent x \<le> f64 x" by simp
  moreover have "(0::real) < 2 powi exponent x" by simp
  ultimately show ?thesis by linarith
qed simp

lemma f64_nonpos: "x \<le> 0 \<Longrightarrow> f64 x \<le> 0"
proof (cases "x = 0")
  case False
  assume "x \<le> 0"
  let ?q = "2 powi (exponent x - 52) :: real"
  have q: "0 < ?q" by simp
  from \<open>x \<le> 0\<close> q have "x / ?q \<le> of_int 0" by (simp add: divide_nonpos_pos)
  then have "round_even (x / ?q) \<le> round_even (of_int 0)" by (rule round_even_mono)
  then have "round_even (x / ?q) \<le> 0" by (simp only: round_even_int)
  then have "real_of_int (round_even (x / ?q)) \<le> 0" by simp
  with q have "real_of_int (round_even (x / ?q)) * ?q \<le> 0"
    by (simp add: mult_le_0_iff)
  with False show ?thesis by (simp add: f64_def)
qed simp

lemma exponent_nonneg: "1 \<le> \<bar>x\<bar> \<Longrightarrow> 0 \<le> exponent x"
proof (rule ccontr)
  assume x: "1 \<le> \<bar>x\<bar>" and "\<not> 0 \<le> exponent x"
  then have "exponent x + 1 \<le> 0" by simp
  then have "(2::real) powi (exponent x + 1) \<le> 2 powi 0"
    by (intro power_int_increasing) simp_all
  moreover from x have "x \<noteq> 0" by auto
  ultimately show False using exponent_bounds [of x] x by simp
qed

lemma exponent_less: "x \<noteq> 0 \<Longrightarrow> \<bar>x\<bar> < 2 powi n \<Longrightarrow> exponent x < n"
proof (rule ccontr)
  assume x: "x \<noteq> 0" "\<bar>x\<bar> < 2 powi n" and "\<not> exponent x < n"
  then have "n \<le> exponent x" by simp
  then have "(2::real) powi n \<le> 2 powi exponent x"
    by (intro power_int_increasing) simp_all
  with exponent_bounds [OF x(1)] x(2) show False by linarith
qed

lemma f64_ge_one: "1 \<le> x \<Longrightarrow> 1 \<le> f64 x"
proof -
  assume x: "1 \<le> x"
  then have "0 \<le> exponent x" by (intro exponent_nonneg) simp
  then have "(2::real) powi 0 \<le> 2 powi exponent x"
    by (intro power_int_increasing) simp_all
  moreover from x have "0 < x" by simp
  ultimately show ?thesis using f64_pos_bounds [of x] by simp
qed

lemma f64_int_exact:
  assumes "\<bar>k\<bar> < 2 ^ 53"
  shows "f64 (of_int k) = of_int k"
proof (cases "k = 0")
  case False
  let ?x = "real_of_int k"
  let ?e = "exponent ?x"
  from False have x0: "?x \<noteq> 0" by simp
  from assms have "\<bar>?x\<bar> < of_int (2 ^ 53)" by (simp only: of_int_abs [symmetric] of_int_less_iff)
  then have "\<bar>?x\<bar> < 2 powi 53" by simp
  from exponent_less [OF x0 this] have e: "?e \<le> 52" by simp
  define n where "n = nat (52 - ?e)"
  have q: "(2::real) powi (?e - 52) = 1 / 2 ^ n"
  proof -
    have "?e - 52 = - int n" using e by (simp add: n_def)
    then show ?thesis by (simp add: power_int_minus_divide)
  qed
  have "?x / (1 / 2 ^ n) = of_int (k * 2 ^ n)" by simp
  then have "round_even (?x / (1 / 2 ^ n)) = k * 2 ^ n" by (simp only: round_even_int)
  with x0 show ?thesis by (simp add: f64_def q)
qed simp

lemma f64_below_one:
  assumes "x \<le> 1 - 1 / 2 ^ 30"
  shows "f64 x \<le> 1 - 1 / 2 ^ 30"
proof (cases "0 < x")
  case False
  then have "f64 x \<le> 0" by (intro f64_nonpos) simp
  then show ?thesis by simp
next
  case True
  then have x0: "x \<noteq> 0" by simp
  from assms have "x < 1" by simp
  with True have "\<bar>x\<bar> < 2 powi 0" by simp
  from exponent_less [OF x0 this] have e: "exponent x \<le> -1" by simp
  show ?thesis
  proof (cases "exponent x = -1")
    case False
    with e have "exponent x + 1 \<le> -1" by simp
    then have "(2::real) powi (exponent x + 1) \<le> 2 powi (-1)"
      by (intro power_int_increasing) simp_all
    with f64_pos_bounds [OF True] have "f64 x \<le> 1 / 2" by (simp add: power_int_minus_divide)
    then show ?thesis by simp
  next
    case m1: True
    have q: "(2::real) powi (exponent x - 52) = 1 / 2 ^ 53"
      by (simp add: m1 power_int_minus_divide)
    have "x / (1 / 2 ^ 53) \<le> of_int (2 ^ 53 - 2 ^ 23)" using assms by simp
    then have "round_even (x / (1 / 2 ^ 53)) \<le> round_even (of_int (2 ^ 53 - 2 ^ 23))"
      by (rule round_even_mono)
    then have "round_even (x / (1 / 2 ^ 53)) \<le> 2 ^ 53 - 2 ^ 23" by (simp only: round_even_int)
    then have "real_of_int (round_even (x / (1 / 2 ^ 53))) \<le> 2 ^ 53 - 2 ^ 23"
      by (simp add: of_int_le_iff [symmetric] del: of_int_le_iff)
    then have "real_of_int (round_even (x / (1 / 2 ^ 53))) * (1 / 2 ^ 53) \<le> 1 - 1 / 2 ^ 30"
      by simp
    with x0 show ?thesis by (simp only: f64_def q if_False)
  qed
qed

lemma f64_rel_err: "\<bar>f64 x - x\<bar> \<le> \<bar>x\<bar> / 2 ^ 53"
proof (cases "x = 0")
  case False
  let ?q = "2 powi (exponent x - 52) :: real"
  have q: "0 < ?q" by simp
  have "\<bar>of_int (round_even (x / ?q)) - x / ?q\<bar> \<le> 1 / 2" by (rule round_even_near)
  then have "\<bar>of_int (round_even (x / ?q)) - x / ?q\<bar> * ?q \<le> 1 / 2 * ?q"
    using q by (intro mult_right_mono) simp_all
  moreover have "\<bar>of_int (round_even (x / ?q)) - x / ?q\<bar> * ?q = \<bar>f64 x - x\<bar>"
  proof -
    have "\<bar>of_int (round_even (x / ?q)) - x / ?q\<bar> * ?q = \<bar>(of_int (round_even (x / ?q)) - x / ?q) * ?q\<bar>"
      using q by (simp add: abs_mult)
    also have "(of_int (round_even (x / ?q)) - x / ?q) * ?q = f64 x - x"
      using False q by (simp add: f64_def algebra_simps)
    finally show ?thesis .
  qed
  moreover have "1 / 2 * ?q = 2 powi exponent x / 2 ^ 53"
    by (simp add: power_int_diff)
  moreover have "2 powi exponent x / 2 ^ 53 \<le> \<bar>x\<bar> / 2 ^ 53"
    using exponent_bounds [OF False] by (simp add: divide_right_mono)
  ultimately show ?thesis by linarith
qed simp

lemma quot_rem_nonneg:
  "0 \<le> d \<Longrightarrow> go_quot d 1000000000 = d div 1000000000 \<and> go_rem d 1000000000 = d mod 1000000000"
  by (cases "d = 0") (simp_all add: go_quot_def go_rem_def minus_mult_div_eq_mod)

lemma quot_rem_neg:
  "d < 0 \<Longrightarrow> go_quot d 1000000000 \<le> 0 \<and> go_rem d 1000000000 \<le> 0"
proof -
  assume d: "d < 0"
  then have q: "go_quot d 1000000000 = - ((- d) div 1000000000)" by (simp add: go_quot_def)
  have "0 \<le> (- d) mod 1000000000" by simp
  moreover have "1000000000 * ((- d) div 1000000000) + (- d) mod 1000000000 = - d"
    by (rule mult_div_mod_eq)
  ultimately have "1000000000 * ((- d) div 1000000000) \<le> - d" by linarith
  then have "go_rem d 1000000000 \<le> 0" by (simp add: go_rem_def q)
  moreover have "0 \<le> (- d) div 1000000000" using d by (simp add: pos_imp_zdiv_nonneg_iff)
  ultimately show ?thesis by (simp add: q)
qed

lemma Seconds_ge_1: "1 \<le> Seconds d \<longleftrightarrow> 1000000000 \<le> d"
proof (cases "1000000000 \<le> d")
  case True
  then have d0: "0 \<le> d" by simp
  from True have "1 \<le> d div 1000000000" by (simp add: pos_imp_zdiv_pos_iff)
  then have "1 \<le> real_of_int (go_quot d 1000000000)" using quot_rem_nonneg [OF d0] by simp
  then have a: "1 \<le> f64 (of_int (go_quot d 1000000000))" by (rule f64_ge_one)
  have "0 \<le> real_of_int (go_rem d 1000000000)" using quot_rem_nonneg [OF d0] by simp
  then have "0 \<le> f64 (of_int (go_rem d 1000000000))" by (rule f64_nonneg)
  then have "0 \<le> f64 (of_int (go_rem d 1000000000)) / 1000000000" by simp
  then have "0 \<le> f64 (f64 (of_int (go_rem d 1000000000)) / 1000000000)" by (rule f64_nonneg)
  with a have "1 \<le> f64 (of_int (go_quot d 1000000000)) + f64 (f64 (of_int (go_rem d 1000000000)) / 1000000000)"
    by linarith
  then have "1 \<le> Seconds d" unfolding Seconds_def by (rule f64_ge_one)
  with True show ?thesis by simp
next
  case False
  have "Seconds d < 1"
  proof (cases "0 \<le> d")
    case True
    with False have q0: "go_quot d 1000000000 = 0" and r: "go_rem d 1000000000 = d"
      using quot_rem_nonneg [OF True] by simp_all
    have "\<bar>d\<bar> < 2 ^ 53" using True False by simp
    then have ex: "f64 (of_int d) = of_int d" by (rule f64_int_exact)
    have "real_of_int d \<le> 999999999" using False by simp
    then have "real_of_int d / 1000000000 \<le> 1 - 1 / 2 ^ 30" by simp
    then have b: "f64 (real_of_int d / 1000000000) \<le> 1 - 1 / 2 ^ 30" by (rule f64_below_one)
    then have "f64 (f64 (real_of_int d / 1000000000)) \<le> 1 - 1 / 2 ^ 30" by (rule f64_below_one)
    then show ?thesis by (simp add: Seconds_def q0 r ex)
  next
    case neg: False
    then have d: "d < 0" by simp
    from quot_rem_neg [OF d] have "real_of_int (go_quot d 1000000000) \<le> 0"
      "real_of_int (go_rem d 1000000000) \<le> 0" by simp_all
    then have a: "f64 (of_int (go_quot d 1000000000)) \<le> 0" and "f64 (of_int (go_rem d 1000000000)) \<le> 0"
      by (simp_all add: f64_nonpos)
    then have "f64 (of_int (go_rem d 1000000000)) / 1000000000 \<le> 0" by (simp add: divide_le_0_iff)
    then have "f64 (f64 (of_int (go_rem d 1000000000)) / 1000000000) \<le> 0" by (rule f64_nonpos)
    with a have "f64 (of_int (go_quot d 1000000000)) + f64 (f64 (of_int (go_rem d 1000000000)) / 1000000000) \<le> 0"
      by linarith
    then have "Seconds d \<le> 0" unfolding Seconds_def by (rule f64_nonpos)
    then show ?thesis by simp
  qed
  with False show ?thesis by simp
qed

lemma quotient_perturb:
  fixes T S s0 :: real
  assumes "0 \<le> T" "1 \<le> S" "1 \<le> s0" "\<bar>S - s0\<bar> \<le> s0 / 2 ^ 51"
  shows "\<bar>T / S - T / s0\<bar> \<le> T / 2 ^ 51"
proof -
  have pos: "0 < S" "0 < s0" using assms by simp_all
  have "T / S - T / s0 = T * (s0 - S) / (S * s0)"
    using pos by (simp add: field_simps)
  then have "\<bar>T / S - T / s0\<bar> = T * \<bar>s0 - S\<bar> / (S * s0)"
    using assms(1) pos by (simp add: abs_mult)
  also have "\<dots> \<le> T * (s0 / 2 ^ 51) / (S * s0)"
  proof -
    have "\<bar>s0 - S\<bar> \<le> s0 / 2 ^ 51" using assms(4) by (simp add: abs_minus_commute)
    then have "T * \<bar>s0 - S\<bar> \<le> T * (s0 / 2 ^ 51)" using assms(1) by (rule mult_left_mono)
    then show ?thesis using pos by (intro divide_right_mono) simp_all
  qed
  also have "\<dots> = (T / 2 ^ 51) / S" using pos by simp
  also have "\<dots> \<le> (T / 2 ^ 51) / 1"
    using assms(1,2) by (intro divide_left_mono) simp_all
  finally show ?thesis by simp
qed

lemma Seconds_accuracy:
  assumes "1000000000 \<le> d" "d < 2 ^ 63"
  shows "\<bar>Seconds d - real_of_int d / 1000000000\<bar> \<le> (real_of_int d / 1000000000) / 2 ^ 51"
proof -
  let ?sec = "d div 1000000000" and ?nsec = "d mod 1000000000"
  let ?s0 = "real_of_int d / 1000000000"
  have d0: "0 \<le> d" using assms by simp
  have qr: "go_quot d 1000000000 = ?sec" "go_rem d 1000000000 = ?nsec"
    using quot_rem_nonneg [OF d0] by simp_all
  have "?sec \<le> 2 ^ 63 div 1000000000" using assms(2) by (intro zdiv_mono1) simp_all
  also have "\<dots> < (2 ^ 53 :: int)" by simp
  finally have sec: "0 \<le> ?sec" "?sec < 2 ^ 53"
    using d0 by (simp_all add: pos_imp_zdiv_nonneg_iff)
  have nsec: "0 \<le> ?nsec" "?nsec < 1000000000" by simp_all
  have A: "f64 (of_int ?sec) = of_int ?sec" using sec by (intro f64_int_exact) simp
  have N: "f64 (of_int ?nsec) = of_int ?nsec" using nsec by (intro f64_int_exact) simp
  have s0: "?s0 = of_int ?sec + of_int ?nsec / 1000000000"
  proof -
    have "d = 1000000000 * ?sec + ?nsec" by simp
    then have "real_of_int d = 1000000000 * of_int ?sec + of_int ?nsec"
      by (metis of_int_add of_int_mult of_int_numeral)
    then show ?thesis by simp
  qed
  have s1: "1 \<le> ?s0" using assms(1) by simp
  let ?b = "real_of_int ?nsec / 1000000000"
  let ?B = "f64 ?b"
  have b: "0 \<le> ?b" "?b \<le> 1" using nsec by simp_all
  have B: "\<bar>?B - ?b\<bar> \<le> 1 / 2 ^ 53"
  proof -
    have "\<bar>?B - ?b\<bar> \<le> \<bar>?b\<bar> / 2 ^ 53" by (rule f64_rel_err)
    also have "\<dots> \<le> 1 / 2 ^ 53" using b by (simp add: divide_right_mono)
    finally show ?thesis .
  qed
  have B0: "0 \<le> ?B" using b(1) by (rule f64_nonneg)
  let ?y = "real_of_int ?sec + ?B"
  have y0: "0 \<le> ?y" using sec(1) B0 by simp
  have y: "\<bar>?y - ?s0\<bar> \<le> 1 / 2 ^ 53" using B by (simp add: s0)
  have S: "\<bar>f64 ?y - ?y\<bar> \<le> \<bar>?y\<bar> / 2 ^ 53" by (rule f64_rel_err)
  have "\<bar>?y\<bar> \<le> ?s0 + 1 / 2 ^ 53" using y y0 by linarith
  also have "\<dots> \<le> 2 * ?s0" using s1 by simp
  finally have "\<bar>?y\<bar> / 2 ^ 53 \<le> 2 * ?s0 / 2 ^ 53" by (simp add: divide_right_mono)
  with S have S': "\<bar>f64 ?y - ?y\<bar> \<le> 2 * ?s0 / 2 ^ 53" by linarith
  have "1 / 2 ^ 53 \<le> ?s0 / 2 ^ 53" using s1 by (simp add: divide_right_mono)
  with y have y': "\<bar>?y - ?s0\<bar> \<le> ?s0 / 2 ^ 53" by linarith
  have "\<bar>f64 ?y - ?s0\<bar> \<le> \<bar>f64 ?y - ?y\<bar> + \<bar>?y - ?s0\<bar>" by linarith
  also have "\<dots> \<le> 2 * ?s0 / 2 ^ 53 + ?s0 / 2 ^ 53" using S' y' by linarith
  also have "\<dots> \<le> ?s0 / 2 ^ 51" using s1 by simp
  finally have "\<bar>f64 ?y - ?s0\<bar> \<le> ?s0 / 2 ^ 51" .
  moreover have "Seconds d = f64 ?y" by (simp add: Seconds_def qr A N)
  ultimately show ?thesis by simp
qed

lemma rate_accuracy:
  assumes "0 \<le> b" "b < 2 ^ 50" "1000000000 \<le> d" "d < 2 ^ 63"
  shows "\<bar>real_of_int (int64_of (f64 (f64 (of_int b) / Seconds d)))
           - real_of_int b * 1000000000 / real_of_int d\<bar> < 2"
proof -
  let ?T = "real_of_int b" and ?S = "Seconds d" and ?s0 = "real_of_int d / 1000000000"
  have T: "f64 (of_int b) = ?T" using assms(1,2) by (intro f64_int_exact) simp
  have T0: "0 \<le> ?T" using assms(1) by simp
  have T50: "?T < 2 ^ 50" using assms(2) by (simp add: of_int_less_iff [symmetric] del: of_int_less_iff)
  have S1: "1 \<le> ?S" using assms(3) by (simp add: Seconds_ge_1)
  have s1: "1 \<le> ?s0" using assms(3) by simp
  have e1: "\<bar>?T / ?S - ?T / ?s0\<bar> \<le> ?T / 2 ^ 51"
    using T0 S1 s1 Seconds_accuracy [OF assms(3,4)] by (rule quotient_perturb)
  have q0: "0 \<le> ?T / ?S" using T0 S1 by simp
  have "?T / ?S \<le> ?T / 1" using T0 S1 by (intro divide_left_mono) simp_all
  then have qT: "\<bar>?T / ?S\<bar> \<le> ?T" using q0 by simp
  have "\<bar>f64 (?T / ?S) - ?T / ?S\<bar> \<le> \<bar>?T / ?S\<bar> / 2 ^ 53" by (rule f64_rel_err)
  also have "\<dots> \<le> ?T / 2 ^ 53" using qT by (simp add: divide_right_mono)
  finally have e2: "\<bar>f64 (?T / ?S) - ?T / ?S\<bar> \<le> ?T / 2 ^ 53" .
  have e3: "?T / 2 ^ 53 + ?T / 2 ^ 51 < 1" using T0 T50 by simp
  have E: "?T / ?s0 = ?T * 1000000000 / real_of_int d" by simp
  have Q0: "0 \<le> f64 (?T / ?S)" using q0 by (rule f64_nonneg)
  then have r: "int64_of (f64 (?T / ?S)) = \<lfloor>f64 (?T / ?S)\<rfloor>" by (simp add: int64_of_def)
  have "\<bar>f64 (?T / ?S) - ?T / ?s0\<bar> < 1" using e1 e2 e3 by linarith
  moreover have "real_of_int \<lfloor>f64 (?T / ?S)\<rfloor> \<le> f64 (?T / ?S)"
    "f64 (?T / ?S) < real_of_int \<lfloor>f64 (?T / ?S)\<rfloor> + 1" by linarith+
  ultimately have "\<bar>real_of_int \<lfloor>f64 (?T / ?S)\<rfloor> - ?T / ?s0\<bar> < 2" by linarith
  then show ?thesis by (simp only: T r E)
qed

lemma wrap64_id: "- (2 ^ 63) \<le> x \<Longrightarrow> x < 2 ^ 63 \<Longrightarrow> wrap64 x = x"
  by (simp add: wrap64_def)

lemma Sub_bounds: "- (2 ^ 63) \<le> Sub t u \<and> Sub t u < 2 ^ 63"
  by (auto simp: Sub_def max_def min_def)

lemma Sub_ge_second: "1000000000 \<le> Sub t u \<longleftrightarrow> 1000000000 \<le> t - u"
  by (auto simp: Sub_def max_def min_def)

lemma Sub_exact: "- (2 ^ 63) \<le> t - u \<Longrightarrow> t - u < 2 ^ 63 \<Longrightarrow> Sub t u = t - u"
  by (auto simp: Sub_def max_def min_def)

lemma elapsed_ge_second: "1 \<le> Seconds (Sub t u) \<longleftrightarrow> 1000000000 \<le> t - u"
  by (simp add: Seconds_ge_1 Sub_ge_second)

lemma updateBitrate_recompute:
  "1000000000 \<le> now - lastUpdate s \<Longrightarrow>
   updateBitrate now n s =
     s\<lparr>bitrate := int64_of (f64 (f64 (of_int (wrap64 (bytesTotal s + n))) /
                                  Seconds (Sub now (lastUpdate s)))),
       bytesTotal := 0, lastUpdate := now\<rparr>"
  by (simp add: updateBitrate_def Let_def elapsed_ge_second)

lemma updateBitrate_accumulate:
  "now - lastUpdate s < 1000000000 \<Longrightarrow>
   updateBitrate now n s = s\<lparr>bytesTotal := wrap64 (bytesTotal s + n)\<rparr>"
  by (simp add: updateBitrate_def Let_def elapsed_ge_second)

lemma updates_below_second:
  "(\<forall>(t, m) \<in> set us. t - lastUpdate s < 1000000000) \<Longrightarrow>
   updates us s =
     s\<lparr>bytesTotal := foldl (\<lambda>b m. wrap64 (b + m)) (bytesTotal s) (map snd us)\<rparr>"
proof (induction us arbitrary: s)
  case Nil
  then show ?case by simp
next
  case (Cons u us)
  obtain t m where u: "u = (t, m)" by (cases u)
  with Cons.prems have t: "t - lastUpdate s < 1000000000" by simp
  let ?s1 = "s\<lparr>bytesTotal := wrap64 (bytesTotal s + m)\<rparr>"
  have "\<forall>(t, m) \<in> set us. t - lastUpdate ?s1 < 1000000000"
    using Cons.prems by simp
  from Cons.IH [OF this] u t show ?case
    by (simp add: updateBitrate_accumulate)
qed

lemma foldl_wrap64_sum:
  "0 \<le> b \<Longrightarrow> (\<forall>m \<in> set ms. 0 \<le> m) \<Longrightarrow> b + sum_list ms < 2 ^ 63 \<Longrightarrow>
   foldl (\<lambda>b m. wrap64 (b + m)) b ms = b + sum_list ms"
proof (induction ms arbitrary: b)
  case Nil
  then show ?case by simp
next
  case (Cons m ms)
  have nn: "0 \<le> sum_list ms" using Cons.prems(2) by (simp add: sum_list_nonneg)
  have m0: "0 \<le> m" using Cons.prems(2) by simp
  have "wrap64 (b + m) = b + m"
    using Cons.prems(1,3) m0 nn by (intro wrap64_id) simp_all
  moreover have "foldl (\<lambda>b m. wrap64 (b + m)) (b + m) ms = b + m + sum_list ms"
    using Cons.prems m0 by (intro Cons.IH) simp_all
  ultimately show ?case by simp
qed

text \<open>
  C4. One update of the meter at clock reading \<open>now\<close> adds \<open>n\<close> to the byte total
  (in 64-bit arithmetic, which is the plain sum while the sum fits). Exactly when the
  time since the last-update timestamp is at least one second, that is 1000000000
  nanoseconds, the rate is computed anew, the total is reset to zero and the timestamp
  becomes \<open>now\<close>; otherwise rate and timestamp stay as they are and the total keeps
  the added bytes. The new rate is the total divided by the elapsed seconds, as
  \<open>float64\<close> computes the quotient, with the fraction dropped; for a total below
  \<open>2^50\<close> it is less than 2 away from the exact quotient of the total by the elapsed
  seconds. Nothing else of the stream changes. \<open>GetBitrate\<close> reads the stored rate, so
  after any run of updates that all come less than one second after the timestamp the
  rate is the one before the run, the timestamp is unchanged, and the total has grown
  by the bytes fed.
\<close>

theorem updateBitrate_spec:
  "(let d = Sub now (lastUpdate s);
        tot = wrap64 (bytesTotal s + n);
        s' = updateBitrate now n s
    in (1 \<le> Seconds d \<longleftrightarrow> 1000000000 \<le> now - lastUpdate s) \<and>
       (- (2 ^ 63) \<le> now - lastUpdate s \<and> now - lastUpdate s < 2 ^ 63 \<longrightarrow>
          d = now - lastUpdate s) \<and>
       (- (2 ^ 63) \<le> bytesTotal s + n \<and> bytesTotal s + n < 2 ^ 63 \<longrightarrow>
          tot = bytesTotal s + n) \<and>
       (if 1000000000 \<le> now - lastUpdate s
        then bitrate s' = int64_of (f64 (f64 (of_int tot) / Seconds d)) \<and>
             bytesTotal s' = 0 \<and> lastUpdate s' = now
        else bitrate s' = bitrate s \<and> bytesTotal s' = tot \<and>
             lastUpdate s' = lastUpdate s) \<and>
       (0 \<le> tot \<and> tot < 2 ^ 50 \<and> 1000000000 \<le> now - lastUpdate s \<longrightarrow>
          \<bar>real_of_int (bitrate s') - real_of_int tot * 1000000000 / real_of_int d\<bar> < 2) \<and>
       GetBitrate s' = bitrate s' \<and>
       s' = s\<lparr>bitrate := bitrate s', bytesTotal := bytesTotal s', lastUpdate := lastUpdate s'\<rparr>) \<and>
   ((\<forall>(t, m) \<in> set us. t - lastUpdate s < 1000000000) \<longrightarrow>
      GetBitrate (updates us s) = GetBitrate s \<and>
      lastUpdate (updates us s) = lastUpdate s \<and>
      bytesTotal (updates us s) =
        foldl (\<lambda>b m. wrap64 (b + m)) (bytesTotal s) (map snd us) \<and>
      (0 \<le> bytesTotal s \<and> (\<forall>m \<in> set (map snd us). 0 \<le> m) \<and>
       bytesTotal s + sum_list (map snd us) < 2 ^ 63 \<longrightarrow>
         bytesTotal (updates us s) = bytesTotal s + sum_list (map snd us)))"
proof -
  let ?d = "Sub now (lastUpdate s)" and ?tot = "wrap64 (bytesTotal s + n)"
  let ?s' = "updateBitrate now n s"
  have below: "(\<forall>(t, m) \<in> set us. t - lastUpdate s < 1000000000) \<longrightarrow>
      GetBitrate (updates us s) = GetBitrate s \<and>
      lastUpdate (updates us s) = lastUpdate s \<and>
      bytesTotal (updates us s) =
        foldl (\<lambda>b m. wrap64 (b + m)) (bytesTotal s) (map snd us) \<and>
      (0 \<le> bytesTotal s \<and> (\<forall>m \<in> set (map snd us). 0 \<le> m) \<and>
       bytesTotal s + sum_list (map snd us) < 2 ^ 63 \<longrightarrow>
         bytesTotal (updates us s) = bytesTotal s + sum_list (map snd us))"
  proof
    assume a: "\<forall>(t, m) \<in> set us. t - lastUpdate s < 1000000000"
    note u = updates_below_second [OF a]
    have "0 \<le> bytesTotal s \<and> (\<forall>m \<in> set (map snd us). 0 \<le> m) \<and>
       bytesTotal s + sum_list (map snd us) < 2 ^ 63 \<longrightarrow>
         bytesTotal (updates us s) = bytesTotal s + sum_list (map snd us)"
      using foldl_wrap64_sum [of "bytesTotal s" "map snd us"] by (simp add: u)
    then show "GetBitrate (updates us s) = GetBitrate s \<and>
      lastUpdate (updates us s) = lastUpdate s \<and>
      bytesTotal (updates us s) =
        foldl (\<lambda>b m. wrap64 (b + m)) (bytesTotal s) (map snd us) \<and>
      (0 \<le> bytesTotal s \<and> (\<forall>m \<in> set (map snd us). 0 \<le> m) \<and>
       bytesTotal s + sum_list (map snd us) < 2 ^ 63 \<longrightarrow>
         bytesTotal (updates us s) = bytesTotal s + sum_list (map snd us))"
      by (simp add: u GetBitrate_def)
  qed
  have thr: "1 \<le> Seconds ?d \<longleftrightarrow> 1000000000 \<le> now - lastUpdate s"
    by (rule elapsed_ge_second)
  have sub: "- (2 ^ 63) \<le> now - lastUpdate s \<and> now - lastUpdate s < 2 ^ 63 \<longrightarrow>
      ?d = now - lastUpdate s"
    by (simp add: Sub_exact)
  have wr: "- (2 ^ 63) \<le> bytesTotal s + n \<and> bytesTotal s + n < 2 ^ 63 \<longrightarrow>
      ?tot = bytesTotal s + n"
    by (simp add: wrap64_id)
  have get: "GetBitrate ?s' = bitrate ?s'" by (simp add: GetBitrate_def)
  have step: "(if 1000000000 \<le> now - lastUpdate s
        then bitrate ?s' = int64_of (f64 (f64 (of_int ?tot) / Seconds ?d)) \<and>
             bytesTotal ?s' = 0 \<and> lastUpdate ?s' = now
        else bitrate ?s' = bitrate s \<and> bytesTotal ?s' = ?tot \<and>
             lastUpdate ?s' = lastUpdate s)"
    by (simp add: updateBitrate_recompute updateBitrate_accumulate)
  have frame: "?s' = s\<lparr>bitrate := bitrate ?s', bytesTotal := bytesTotal ?s',
      lastUpdate := lastUpdate ?s'\<rparr>"
    by (cases "1000000000 \<le> now - lastUpdate s")
      (simp_all add: updateBitrate_recompute updateBitrate_accumulate)
  have acc: "0 \<le> ?tot \<and> ?tot < 2 ^ 50 \<and> 1000000000 \<le> now - lastUpdate s \<longrightarrow>
      \<bar>real_of_int (bitrate ?s') - real_of_int ?tot * 1000000000 / real_of_int ?d\<bar> < 2"
  proof
    assume a: "0 \<le> ?tot \<and> ?tot < 2 ^ 50 \<and> 1000000000 \<le> now - lastUpdate s"
    then have d: "1000000000 \<le> ?d" by (simp add: Sub_ge_second)
    have d63: "?d < 2 ^ 63" using Sub_bounds [of now "lastUpdate s"] by simp
    from a have "bitrate ?s' = int64_of (f64 (f64 (of_int ?tot) / Seconds ?d))"
      by (simp add: updateBitrate_recompute)
    with rate_accuracy [OF _ _ d d63, of ?tot] a
    show "\<bar>real_of_int (bitrate ?s') - real_of_int ?tot * 1000000000 / real_of_int ?d\<bar> < 2"
      by simp
  qed
  from thr sub wr step acc get frame below show ?thesis
    unfolding Let_def by (intro conjI)
qed

lemma rate_33_bytes_in_1100_ms:
  "int64_of (f64 (f64 (of_int 33) / Seconds 1100000000)) = 29"
  by code_simp

lemma rate_2500_bytes_in_1250_ms:
  "int64_of (f64 (f64 (of_int 2500) / Seconds 1250000000)) = 2000"
  by code_simp

theorem updateBitrate_spec_witness:
  "GetBitrate (updates [(200000000, 500), (400000000, 500), (600000000, 500), (800000000, 500)]
      ((new_Stream ''k'' 0 0)\<lparr>bitrate := 7\<rparr>)) = 7 \<and>
   bytesTotal (updates [(200000000, 500), (400000000, 500), (600000000, 500), (800000000, 500)]
      ((new_Stream ''k'' 0 0)\<lparr>bitrate := 7\<rparr>)) = 2000 \<and>
   bitrate (updateBitrate 1250000000 500 ((new_Stream ''k'' 0 0)\<lparr>bitrate := 7, bytesTotal := 2000\<rparr>)) = 2000 \<and>
   bytesTotal (updateBitrate 1250000000 500 ((new_Stream ''k'' 0 0)\<lparr>bitrate := 7, bytesTotal := 2000\<rparr>)) = 0 \<and>
   lastUpdate (updateBitrate 1250000000 500 ((new_Stream ''k'' 0 0)\<lparr>bitrate := 7, bytesTotal := 2000\<rparr>)) = 1250000000 \<and>
   bitrate (updateBitrate 1100000000 33 (new_Stream ''k'' 0 0)) = 29"
proof -
  have w: "wrap64 33 = 33" "wrap64 2500 = 2500" "wrap64 500 = 500" "wrap64 1000 = 1000"
    "wrap64 1500 = 1500" "wrap64 2000 = 2000"
    by (simp_all add: wrap64_def)
  have s: "Sub 1100000000 0 = 1100000000" "Sub 1250000000 0 = 1250000000"
    by (simp_all add: Sub_def)
  from updateBitrate_spec [of 0 "(new_Stream ''k'' 0 0)\<lparr>bitrate := 7\<rparr>" 0
      "[(200000000, 500), (400000000, 500), (600000000, 500), (800000000, 500)]"]
  have a: "GetBitrate (updates [(200000000, 500), (400000000, 500), (600000000, 500), (800000000, 500)]
      ((new_Stream ''k'' 0 0)\<lparr>bitrate := 7\<rparr>)) = 7 \<and>
   bytesTotal (updates [(200000000, 500), (400000000, 500), (600000000, 500), (800000000, 500)]
      ((new_Stream ''k'' 0 0)\<lparr>bitrate := 7\<rparr>)) = 2000"
    by (simp add: Let_def new_Stream_def GetBitrate_def w)
  from updateBitrate_spec [of 1250000000
      "(new_Stream ''k'' 0 0)\<lparr>bitrate := 7, bytesTotal := 2000\<rparr>" 500 "[]"]
  have b: "bitrate (updateBitrate 1250000000 500 ((new_Stream ''k'' 0 0)\<lparr>bitrate := 7, bytesTotal := 2000\<rparr>)) = 2000 \<and>
   bytesTotal (updateBitrate 1250000000 500 ((new_Stream ''k'' 0 0)\<lparr>bitrate := 7, bytesTotal := 2000\<rparr>)) = 0 \<and>
   lastUpdate (updateBitrate 1250000000 500 ((new_Stream ''k'' 0 0)\<lparr>bitrate := 7, bytesTotal := 2000\<rparr>)) = 1250000000"
    using rate_2500_bytes_in_1250_ms
    by (simp add: Let_def new_Stream_def w s)
  from updateBitrate_spec [of 1100000000 "new_Stream ''k'' 0 0" 33 "[]"]
  have c: "bitrate (updateBitrate 1100000000 33 (new_Stream ''k'' 0 0)) = 29"
    using rate_33_bytes_in_1100_ms
    by (simp add: Let_def new_Stream_def w s)
  from a b c show ?thesis by (simp only: simp_thms)
qed

section \<open>Per-unit writes and segmenter start\<close>

lemma foldl_add_lengths:
  "foldl (\<lambda>t nalu. t + int (length nalu)) acc au = acc + sum_list (map (\<lambda>nalu. int (length nalu)) au)"
  by (induction au arbitrary: acc) simp_all

lemma WriteH264_body_dropped:
  "\<not> muxerReady s \<or> Muxer s = None \<Longrightarrow> WriteH264_body now wr pts dts au s = (Return (), s, [])"
  by (auto simp: WriteH264_body_def split: option.splits)

lemma WriteAAC_body_dropped:
  "\<not> muxerReady s \<or> Muxer s = None \<Longrightarrow> WriteAAC_body now wr pts au s = (Return (), s, [])"
  by (auto simp: WriteAAC_body_def split: option.splits)

lemma updateBitrate_other [simp]:
  "Muxer (updateBitrate now n s) = Muxer s"
  "muxerReady (updateBitrate now n s) = muxerReady s"
  "ntpStart (updateBitrate now n s) = ntpStart s"
  "Active (updateBitrate now n s) = Active s"
  "Key (updateBitrate now n s) = Key s"
  "StartTime (updateBitrate now n s) = StartTime s"
  by (simp_all add: updateBitrate_def Let_def)

lemma WriteH264_body_ready:
  assumes "muxerReady s" and "Muxer s = Some m"
  shows "WriteH264_body now wr pts dts au s =
    (let s2 = (updateBitrate now (sum_list (map (\<lambda>nalu. int (length nalu)) au)) s)
                \<lparr>Muxer := Some (mux_call (MWriteH264 (ntpStart s + pts) pts au) m)\<rparr>
     in case wr of
          Success \<Rightarrow> (Return (), s2, [])
        | Fault p \<Rightarrow> (Panicking p, s2, [])
        | Failure e \<Rightarrow>
            (Return (), s2,
             if sublist ''DTS is not monotonically'' e \<or> sublist ''unable to extract DTS'' e then []
             else [Log ERROR ''Error writing H264: %v'' [AStr e]]))"
proof (cases wr)
  case Success
  with assms show ?thesis
    by (simp add: WriteH264_body_def Let_def foldl_add_lengths)
next
  case (Fault p)
  with assms show ?thesis
    by (simp add: WriteH264_body_def Let_def foldl_add_lengths)
next
  case (Failure e)
  show ?thesis
  proof (cases "sublist ''DTS is not monotonically'' e")
    case True
    with assms Failure show ?thesis
      by (simp add: WriteH264_body_def Let_def foldl_add_lengths contains_sublist)
  next
    case no_mono: False
    show ?thesis
    proof (cases "sublist ''unable to extract DTS'' e")
      case True
      with assms Failure no_mono show ?thesis
        by (simp add: WriteH264_body_def Let_def foldl_add_lengths contains_sublist)
    next
      case False
      with assms Failure no_mono show ?thesis
        by (simp add: WriteH264_body_def Let_def foldl_add_lengths contains_sublist)
    qed
  qed
qed

lemma WriteH264_ready:
  assumes "muxerReady s" and "Muxer s = Some m"
  shows "WriteH264 now wr pts dts au s =
    (Return (),
     (updateBitrate now (sum_list (map (\<lambda>nalu. int (length nalu)) au)) s)
        \<lparr>Muxer := Some (mux_call (MWriteH264 (ntpStart s + pts) pts au) m)\<rparr>,
     case wr of
       Success \<Rightarrow> []
     | Fault p \<Rightarrow> [Log ERROR ''WriteH264 panic: %v'' [AStr p]]
     | Failure e \<Rightarrow>
         if sublist ''DTS is not monotonically'' e \<or> sublist ''unable to extract DTS'' e then []
         else [Log ERROR ''Error writing H264: %v'' [AStr e]])"
  by (simp add: WriteH264_def WriteH264_body_ready [OF assms] Let_def split: outcome.splits)

lemma WriteAAC_ready:
  assumes "muxerReady s" and "Muxer s = Some m"
  shows "WriteAAC now wr pts au s =
    (Return (),
     (updateBitrate now (int (length au)) s)
        \<lparr>Muxer := Some (mux_call (MWriteMPEG4Audio (ntpStart s + pts) pts [au]) m)\<rparr>,
     case wr of
       Success \<Rightarrow> []
     | Fault p \<Rightarrow> [Log ERROR ''WriteAAC panic: %v'' [AStr p]]
     | Failure e \<Rightarrow> [Log ERROR ''Error writing AAC: %v'' [AStr e]])"
  using assms
  by (simp add: WriteAAC_def WriteAAC_body_def Let_def split: outcome.splits)

lemma WriteH264_returns: "fst (WriteH264 now wr pts dts au s) = Return ()"
proof (cases "muxerReady s \<and> Muxer s \<noteq> None")
  case True
  then obtain m where "Muxer s = Some m" by auto
  with True show ?thesis by (simp add: WriteH264_ready)
next
  case False
  then have "\<not> muxerReady s \<or> Muxer s = None" by simp
  then show ?thesis
    by (simp add: WriteH264_def WriteH264_body_dropped)
qed

lemma WriteAAC_returns: "fst (WriteAAC now wr pts au s) = Return ()"
proof (cases "muxerReady s \<and> Muxer s \<noteq> None")
  case True
  then obtain m where "Muxer s = Some m" by auto
  with True show ?thesis by (simp add: WriteAAC_ready)
next
  case False
  then have "\<not> muxerReady s \<or> Muxer s = None" by simp
  then show ?thesis
    by (simp add: WriteAAC_def WriteAAC_body_dropped)
qed


lemma StartMuxer_ready: "muxerReady s \<Longrightarrow> StartMuxer now st s = (Return None, s, [])"
  by (simp add: StartMuxer_def)

lemma StartMuxer_Success:
  "\<not> muxerReady s \<Longrightarrow>
   fst (StartMuxer now Success s) = Return None \<and>
   muxerReady (fst (snd (StartMuxer now Success s))) \<and>
   ntpStart (fst (snd (StartMuxer now Success s))) = now \<and>
   mux_calls (fst (snd (StartMuxer now Success s))) = [MStart]"
  by (simp add: StartMuxer_def Let_def mux_calls_def)

lemma StartMuxer_Failure:
  "\<not> muxerReady s \<Longrightarrow>
   fst (StartMuxer now (Failure e) s) = Return (Some (''failed to start muxer: '' @ e)) \<and>
   \<not> muxerReady (fst (snd (StartMuxer now (Failure e) s))) \<and>
   ntpStart (fst (snd (StartMuxer now (Failure e) s))) = ntpStart s"
  by (simp add: StartMuxer_def Let_def)

lemma StartMuxer_Fault:
  "\<not> muxerReady s \<Longrightarrow>
   fst (StartMuxer now (Fault p) s) = Panicking p \<and>
   \<not> muxerReady (fst (snd (StartMuxer now (Fault p) s))) \<and>
   ntpStart (fst (snd (StartMuxer now (Fault p) s))) = ntpStart s"
  by (simp add: StartMuxer_def Let_def)

lemma StartMuxer_ready_inv: "ready_inv s \<Longrightarrow> ready_inv (fst (snd (StartMuxer now st s)))"
  by (cases st) (simp_all add: StartMuxer_def Let_def ready_inv_def)

lemma WriteH264_keeps:
  "muxerReady (fst (snd (WriteH264 now wr pts dts au s))) = muxerReady s \<and>
   ntpStart (fst (snd (WriteH264 now wr pts dts au s))) = ntpStart s \<and>
   Active (fst (snd (WriteH264 now wr pts dts au s))) = Active s \<and>
   (Muxer (fst (snd (WriteH264 now wr pts dts au s))) = None) = (Muxer s = None)"
proof (cases "muxerReady s \<and> Muxer s \<noteq> None")
  case True
  then obtain m where "Muxer s = Some m" by auto
  with True show ?thesis by (simp add: WriteH264_ready)
next
  case False
  then have "\<not> muxerReady s \<or> Muxer s = None" by simp
  then show ?thesis
    by (simp add: WriteH264_def WriteH264_body_dropped)
qed

lemma WriteAAC_keeps:
  "muxerReady (fst (snd (WriteAAC now wr pts au s))) = muxerReady s \<and>
   ntpStart (fst (snd (WriteAAC now wr pts au s))) = ntpStart s \<and>
   Active (fst (snd (WriteAAC now wr pts au s))) = Active s \<and>
   (Muxer (fst (snd (WriteAAC now wr pts au s))) = None) = (Muxer s = None)"
proof (cases "muxerReady s \<and> Muxer s \<noteq> None")
  case True
  then obtain m where "Muxer s = Some m" by auto
  with True show ?thesis by (simp add: WriteAAC_ready)
next
  case False
  then have "\<not> muxerReady s \<or> Muxer s = None" by simp
  then show ?thesis
    by (simp add: WriteAAC_def WriteAAC_body_dropped)
qed

lemma WriteH264_ready_inv: "ready_inv s \<Longrightarrow> ready_inv (fst (snd (WriteH264 now wr pts dts au s)))"
  using WriteH264_keeps [of now wr pts dts au s] by (simp add: ready_inv_def)

lemma WriteAAC_ready_inv: "ready_inv s \<Longrightarrow> ready_inv (fst (snd (WriteAAC now wr pts au s)))"
  using WriteAAC_keeps [of now wr pts au s] by (simp add: ready_inv_def)

lemma SetVideoParams_ready_inv: "ready_inv s \<Longrightarrow> ready_inv (SetVideoParams sp pp s)"
  by (simp add: ready_inv_def SetVideoParams_def)

lemma SetAudioParams_ready_inv: "ready_inv s \<Longrightarrow> ready_inv (fst (SetAudioParams sr ch s))"
  by (simp add: ready_inv_def SetAudioParams_def)

text \<open>
  C5. A video or audio unit written while the ready flag is unset or the segmenter is
  absent is dropped: the call returns normally, the stream is left exactly as it was (so
  the segmenter has received no call and byte total, last-update time and rate of the
  meter are unchanged), and nothing is logged.
\<close>

theorem unready_write_dropped:
  assumes "\<not> muxerReady s \<or> Muxer s = None"
  shows "WriteH264 now wr pts dts au s = (Return (), s, []) \<and>
         WriteAAC now wr pts au' s = (Return (), s, []) \<and>
         meter (fst (snd (WriteH264 now wr pts dts au s))) = meter s \<and>
         mux_calls (fst (snd (WriteH264 now wr pts dts au s))) = mux_calls s \<and>
         meter (fst (snd (WriteAAC now wr pts au' s))) = meter s \<and>
         mux_calls (fst (snd (WriteAAC now wr pts au' s))) = mux_calls s"
  using assms by (simp add: WriteH264_def WriteAAC_def WriteH264_body_dropped WriteAAC_body_dropped)

theorem unready_write_dropped_witness:
  "Muxer (new_Stream ''k'' 0 0) = None \<and>
   WriteH264 1 (Failure ''x'') 2 3 [''ab''] (new_Stream ''k'' 0 0) = (Return (), new_Stream ''k'' 0 0, []) \<and>
   \<not> muxerReady (fst (snd (StartMuxer 9 (Failure ''no'') (new_Stream ''k'' 0 0)))) \<and>
   Muxer (fst (snd (StartMuxer 9 (Failure ''no'') (new_Stream ''k'' 0 0)))) \<noteq> None \<and>
   mux_calls (fst (snd (WriteAAC 1 Success 2 ''ab''
      (fst (snd (StartMuxer 9 (Failure ''no'') (new_Stream ''k'' 0 0))))))) = [MStart]"
  using unready_write_dropped [of "new_Stream ''k'' 0 0" 1 "Failure ''x''" 2 3 "[''ab'']" "''ab''"]
    unready_write_dropped [of "fst (snd (StartMuxer 9 (Failure ''no'') (new_Stream ''k'' 0 0)))"
      1 Success 2 3 "[]" "''ab''"]
  by (simp add: new_Stream_def StartMuxer_def Let_def mux_calls_def)

text \<open>
  C6. On a stream whose ready flag is set (the segmenter is then present, an invariant
  of every stream from its creation on), a video or audio write feeds the meter the sum
  of the byte lengths of the unit's payload parts and hands the segmenter the anchor
  plus the relative timestamp, the relative timestamp itself and the payload, whatever
  the segmenter then answers. The anchor is the clock reading taken by \<open>StartMuxer\<close>
  when \<open>Start()\<close> succeeds, and the ready flag is set by a successful start and by
  nothing else: a failed or panicking start leaves it unset, a start on a ready stream
  changes nothing, and writes and parameter updates keep flag and anchor.
\<close>

theorem ready_write_anchored:
  "(muxerReady s \<and> ready_inv s \<longrightarrow>
      (\<exists>m. Muxer s = Some m \<and>
         fst (snd (WriteH264 now wr pts dts au s)) =
           (updateBitrate now (sum_list (map (\<lambda>nalu. int (length nalu)) au)) s)
             \<lparr>Muxer := Some (m\<lparr>calls := calls m @ [MWriteH264 (ntpStart s + pts) pts au]\<rparr>)\<rparr> \<and>
         fst (snd (WriteAAC now wr pts au' s)) =
           (updateBitrate now (int (length au')) s)
             \<lparr>Muxer := Some (m\<lparr>calls := calls m @ [MWriteMPEG4Audio (ntpStart s + pts) pts [au']]\<rparr>)\<rparr>)) \<and>
   (\<not> muxerReady s \<longrightarrow>
      muxerReady (fst (snd (StartMuxer t st s))) = (st = Success) \<and>
      ntpStart (fst (snd (StartMuxer t st s))) = (if st = Success then t else ntpStart s) \<and>
      (fst (StartMuxer t st s) = Return None) = (st = Success)) \<and>
   (muxerReady s \<longrightarrow> StartMuxer t st s = (Return None, s, [])) \<and>
   \<not> muxerReady (new_Stream k t0 t1) \<and> ready_inv (new_Stream k t0 t1) \<and>
   (ready_inv s \<longrightarrow>
      ready_inv (fst (snd (StartMuxer t st s))) \<and>
      ready_inv (fst (snd (WriteH264 now wr pts dts au s))) \<and>
      ready_inv (fst (snd (WriteAAC now wr pts au' s))) \<and>
      ready_inv (SetVideoParams sp pp s) \<and>
      ready_inv (fst (SetAudioParams sr ch s))) \<and>
   muxerReady (fst (snd (WriteH264 now wr pts dts au s))) = muxerReady s \<and>
   ntpStart (fst (snd (WriteH264 now wr pts dts au s))) = ntpStart s \<and>
   muxerReady (fst (snd (WriteAAC now wr pts au' s))) = muxerReady s \<and>
   ntpStart (fst (snd (WriteAAC now wr pts au' s))) = ntpStart s \<and>
   muxerReady (SetVideoParams sp pp s) = muxerReady s \<and>
   ntpStart (SetVideoParams sp pp s) = ntpStart s \<and>
   muxerReady (fst (SetAudioParams sr ch s)) = muxerReady s \<and>
   ntpStart (fst (SetAudioParams sr ch s)) = ntpStart s"
proof -
  have writes: "muxerReady s \<and> ready_inv s \<longrightarrow>
      (\<exists>m. Muxer s = Some m \<and>
         fst (snd (WriteH264 now wr pts dts au s)) =
           (updateBitrate now (sum_list (map (\<lambda>nalu. int (length nalu)) au)) s)
             \<lparr>Muxer := Some (m\<lparr>calls := calls m @ [MWriteH264 (ntpStart s + pts) pts au]\<rparr>)\<rparr> \<and>
         fst (snd (WriteAAC now wr pts au' s)) =
           (updateBitrate now (int (length au')) s)
             \<lparr>Muxer := Some (m\<lparr>calls := calls m @ [MWriteMPEG4Audio (ntpStart s + pts) pts [au']]\<rparr>)\<rparr>)"
  proof
    assume a: "muxerReady s \<and> ready_inv s"
    then obtain m where m: "Muxer s = Some m" by (auto simp: ready_inv_def)
    with a show "\<exists>m. Muxer s = Some m \<and>
         fst (snd (WriteH264 now wr pts dts au s)) =
           (updateBitrate now (sum_list (map (\<lambda>nalu. int (length nalu)) au)) s)
             \<lparr>Muxer := Some (m\<lparr>calls := calls m @ [MWriteH264 (ntpStart s + pts) pts au]\<rparr>)\<rparr> \<and>
         fst (snd (WriteAAC now wr pts au' s)) =
           (updateBitrate now (int (length au')) s)
             \<lparr>Muxer := Some (m\<lparr>calls := calls m @ [MWriteMPEG4Audio (ntpStart s + pts) pts [au']]\<rparr>)\<rparr>"
      by (simp add: WriteH264_ready WriteAAC_ready mux_call_def)
  qed
  have start: "\<not> muxerReady s \<longrightarrow>
      muxerReady (fst (snd (StartMuxer t st s))) = (st = Success) \<and>
      ntpStart (fst (snd (StartMuxer t st s))) = (if st = Success then t else ntpStart s) \<and>
      (fst (StartMuxer t st s) = Return None) = (st = Success)"
    using StartMuxer_Success [of s t] StartMuxer_Failure [of s t] StartMuxer_Fault [of s t]
    by (cases st) simp_all
  have inv: "ready_inv s \<longrightarrow>
      ready_inv (fst (snd (StartMuxer t st s))) \<and>
      ready_inv (fst (snd (WriteH264 now wr pts dts au s))) \<and>
      ready_inv (fst (snd (WriteAAC now wr pts au' s))) \<and>
      ready_inv (SetVideoParams sp pp s) \<and>
      ready_inv (fst (SetAudioParams sr ch s))"
    by (simp add: StartMuxer_ready_inv WriteH264_ready_inv WriteAAC_ready_inv
        SetVideoParams_ready_inv SetAudioParams_ready_inv)
  have fresh: "\<not> muxerReady (new_Stream k t0 t1) \<and> ready_inv (new_Stream k t0 t1)"
    by (simp add: new_Stream_def ready_inv_def)
  have params: "muxerReady (SetVideoParams sp pp s) = muxerReady s \<and>
      ntpStart (SetVideoParams sp pp s) = ntpStart s \<and>
      muxerReady (fst (SetAudioParams sr ch s)) = muxerReady s \<and>
      ntpStart (fst (SetAudioParams sr ch s)) = ntpStart s"
    by (simp add: SetVideoParams_def SetAudioParams_def)
  have again: "muxerReady s \<longrightarrow> StartMuxer t st s = (Return None, s, [])"
    by (simp add: StartMuxer_ready)
  from writes start again fresh inv WriteH264_keeps [of now wr pts dts au s]
    WriteAAC_keeps [of now wr pts au' s] params
  show ?thesis by blast
qed


theorem ready_write_anchored_witness:
  "muxerReady (fst (snd (StartMuxer 1000 Success (new_Stream ''k'' 0 0)))) \<and>
   ntpStart (fst (snd (StartMuxer 1000 Success (new_Stream ''k'' 0 0)))) = 1000 \<and>
   mux_calls (fst (snd (WriteH264 500 Success 40 30 [''abc'', ''de'']
      (fst (snd (StartMuxer 1000 Success (new_Stream ''k'' 0 0))))))) =
     [MStart, MWriteH264 1040 40 [''abc'', ''de'']] \<and>
   bytesTotal (fst (snd (WriteH264 500 Success 40 30 [''abc'', ''de'']
      (fst (snd (StartMuxer 1000 Success (new_Stream ''k'' 0 0))))))) = 5 \<and>
   mux_calls (fst (snd (WriteAAC 500 Success 40 ''abcd''
      (fst (snd (StartMuxer 1000 Success (new_Stream ''k'' 0 0))))))) =
     [MStart, MWriteMPEG4Audio 1040 40 [''abcd'']] \<and>
   \<not> muxerReady (fst (snd (StartMuxer 1000 (Failure ''no'') (new_Stream ''k'' 0 0))))"
  using ready_write_anchored [of "fst (snd (StartMuxer 1000 Success (new_Stream ''k'' 0 0)))"
      500 Success 40 30 "[''abc'', ''de'']" "''abcd''" 1000 Success "''k''" 0 0 "[]" "[]" 0 0]
    ready_write_anchored [of "new_Stream ''k'' 0 0"
      500 Success 40 30 "[''abc'', ''de'']" "''abcd''" 1000 Success "''k''" 0 0 "[]" "[]" 0 0]
    ready_write_anchored [of "new_Stream ''k'' 0 0"
      500 Success 40 30 "[''abc'', ''de'']" "''abcd''" 1000 "Failure ''no''" "''k''" 0 0 "[]" "[]" 0 0]
  by (simp add: new_Stream_def StartMuxer_def Let_def mux_calls_def ready_inv_def
      updateBitrate_accumulate wrap64_def)

text \<open>
  No failure of a single write ends the session or the callback: both writes always
  return normally, a panic of the segmenter being recovered and logged. A failed video
  write is suppressed from the log when its message contains
  \<open>DTS is not monotonically\<close> or \<open>unable to extract DTS\<close> and is logged
  otherwise; a failed audio write is always logged. The stream is left as after a
  successful write.
\<close>

lemma write_failure_nonfatal:
  "fst (WriteH264 now wr pts dts au s) = Return () \<and>
   fst (WriteAAC now wr pts au' s) = Return () \<and>
   (muxerReady s \<and> Muxer s \<noteq> None \<longrightarrow>
      snd (snd (WriteH264 now (Failure e) pts dts au s)) =
        (if sublist ''DTS is not monotonically'' e \<or> sublist ''unable to extract DTS'' e then []
         else [Log ERROR ''Error writing H264: %v'' [AStr e]]) \<and>
      snd (snd (WriteAAC now (Failure e) pts au' s)) =
        [Log ERROR ''Error writing AAC: %v'' [AStr e]] \<and>
      snd (snd (WriteH264 now (Fault p) pts dts au s)) =
        [Log ERROR ''WriteH264 panic: %v'' [AStr p]] \<and>
      snd (snd (WriteAAC now (Fault p) pts au' s)) =
        [Log ERROR ''WriteAAC panic: %v'' [AStr p]] \<and>
      fst (snd (WriteH264 now (Failure e) pts dts au s)) = fst (snd (WriteH264 now Success pts dts au s)) \<and>
      fst (snd (WriteAAC now (Failure e) pts au' s)) = fst (snd (WriteAAC now Success pts au' s)))"
proof -
  have "muxerReady s \<and> Muxer s \<noteq> None \<longrightarrow>
      snd (snd (WriteH264 now (Failure e) pts dts au s)) =
        (if sublist ''DTS is not monotonically'' e \<or> sublist ''unable to extract DTS'' e then []
         else [Log ERROR ''Error writing H264: %v'' [AStr e]]) \<and>
      snd (snd (WriteAAC now (Failure e) pts au' s)) =
        [Log ERROR ''Error writing AAC: %v'' [AStr e]] \<and>
      snd (snd (WriteH264 now (Fault p) pts dts au s)) =
        [Log ERROR ''WriteH264 panic: %v'' [AStr p]] \<and>
      snd (snd (WriteAAC now (Fault p) pts au' s)) =
        [Log ERROR ''WriteAAC panic: %v'' [AStr p]] \<and>
      fst (snd (WriteH264 now (Failure e) pts dts au s)) = fst (snd (WriteH264 now Success pts dts au s)) \<and>
      fst (snd (WriteAAC now (Failure e) pts au' s)) = fst (snd (WriteAAC now Success pts au' s))"
  proof
    assume a: "muxerReady s \<and> Muxer s \<noteq> None"
    then obtain m where m: "Muxer s = Some m" by auto
    from a have r: "muxerReady s" by simp
    show "snd (snd (WriteH264 now (Failure e) pts dts au s)) =
        (if sublist ''DTS is not monotonically'' e \<or> sublist ''unable to extract DTS'' e then []
         else [Log ERROR ''Error writing H264: %v'' [AStr e]]) \<and>
      snd (snd (WriteAAC now (Failure e) pts au' s)) =
        [Log ERROR ''Error writing AAC: %v'' [AStr e]] \<and>
      snd (snd (WriteH264 now (Fault p) pts dts au s)) =
        [Log ERROR ''WriteH264 panic: %v'' [AStr p]] \<and>
      snd (snd (WriteAAC now (Fault p) pts au' s)) =
        [Log ERROR ''WriteAAC panic: %v'' [AStr p]] \<and>
      fst (snd (WriteH264 now (Failure e) pts dts au s)) = fst (snd (WriteH264 now Success pts dts au s)) \<and>
      fst (snd (WriteAAC now (Failure e) pts au' s)) = fst (snd (WriteAAC now Success pts au' s))"
      by (simp add: WriteH264_ready [OF r m] WriteAAC_ready [OF r m])
  qed
  then show ?thesis
    by (simp add: WriteH264_returns WriteAAC_returns)
qed

lemma write_failure_nonfatal_example:
  "muxerReady (fst (snd (StartMuxer 1000 Success (new_Stream ''k'' 0 0)))) \<and>
   WriteH264 500 (Failure ''unable to extract DTS: bad'') 40 30 [''abc'']
     (fst (snd (StartMuxer 1000 Success (new_Stream ''k'' 0 0)))) =
   (Return (),
    fst (snd (WriteH264 500 Success 40 30 [''abc'']
      (fst (snd (StartMuxer 1000 Success (new_Stream ''k'' 0 0)))))),
    []) \<and>
   snd (snd (WriteH264 500 (Failure ''broken pipe'') 40 30 [''abc'']
     (fst (snd (StartMuxer 1000 Success (new_Stream ''k'' 0 0)))))) =
     [Log ERROR ''Error writing H264: %v'' [AStr ''broken pipe'']]"
proof -
  have rdy: "muxerReady (fst (snd (StartMuxer 1000 Success (new_Stream ''k'' 0 0))))"
    by (simp add: StartMuxer_def Let_def new_Stream_def)
  have m: "Muxer (fst (snd (StartMuxer 1000 Success (new_Stream ''k'' 0 0)))) \<noteq> None"
    by (simp add: StartMuxer_def Let_def new_Stream_def)
  have sub: "sublist ''unable to extract DTS'' ''unable to extract DTS: bad''"
    by (rule prefix_imp_sublist) simp
  have no1: "\<not> sublist ''DTS is not monotonically'' ''broken pipe''"
    using contains_sublist [of "''broken pipe''" "''DTS is not monotonically''"]
    by (simp add: contains_def)
  have no2: "\<not> sublist ''unable to extract DTS'' ''broken pipe''"
    using contains_sublist [of "''broken pipe''" "''unable to extract DTS''"]
    by (simp add: contains_def)
  show ?thesis
    using write_failure_nonfatal [of 500 "Failure ''unable to extract DTS: bad''" 40 30 "[''abc'']"
        "fst (snd (StartMuxer 1000 Success (new_Stream ''k'' 0 0)))" "[]"
        "''unable to extract DTS: bad''" "[]"]
      write_failure_nonfatal [of 500 "Failure ''broken pipe''" 40 30 "[''abc'']"
        "fst (snd (StartMuxer 1000 Success (new_Stream ''k'' 0 0)))" "[]"
        "''broken pipe''" "[]"]
      rdy m sub no1 no2
    by (metis (no_types, lifting) prod.collapse)
qed

text \<open>
  C7. The benign class exists on the video path only. On a ready stream, a write that
  fails with a message containing \<open>DTS is not monotonically\<close> or
  \<open>unable to extract DTS\<close> logs nothing when it is a video write, and logs
  \<open>Error writing AAC: %v\<close> with that message when it is an audio write:
  \<open>WriteAAC\<close> has no test of the message. Both return normally and leave the stream
  as after a successful write.
\<close>

theorem audio_failure_logged:
  "muxerReady s \<and> Muxer s \<noteq> None \<and>
   (sublist ''DTS is not monotonically'' e \<or> sublist ''unable to extract DTS'' e) \<longrightarrow>
     WriteH264 now (Failure e) pts dts au s =
       (Return (), fst (snd (WriteH264 now Success pts dts au s)), []) \<and>
     WriteAAC now (Failure e) pts au' s =
       (Return (), fst (snd (WriteAAC now Success pts au' s)),
        [Log ERROR ''Error writing AAC: %v'' [AStr e]])"
proof
  assume a: "muxerReady s \<and> Muxer s \<noteq> None \<and>
   (sublist ''DTS is not monotonically'' e \<or> sublist ''unable to extract DTS'' e)"
  then obtain m where m: "Muxer s = Some m" by auto
  from a have r: "muxerReady s" by simp
  from a have sub: "sublist ''DTS is not monotonically'' e \<or> sublist ''unable to extract DTS'' e"
    by simp
  show "WriteH264 now (Failure e) pts dts au s =
       (Return (), fst (snd (WriteH264 now Success pts dts au s)), []) \<and>
     WriteAAC now (Failure e) pts au' s =
       (Return (), fst (snd (WriteAAC now Success pts au' s)),
        [Log ERROR ''Error writing AAC: %v'' [AStr e]])"
    using sub by (simp add: WriteH264_ready [OF r m] WriteAAC_ready [OF r m])
qed

theorem audio_failure_not_suppressed:
  "sublist ''DTS is not monotonically'' ''DTS is not monotonically increasing'' \<and>
   muxerReady (fst (snd (StartMuxer 1000 Success (new_Stream ''k'' 0 0)))) \<and>
   WriteH264 500 (Failure ''DTS is not monotonically increasing'') 40 30 [''abc'']
     (fst (snd (StartMuxer 1000 Success (new_Stream ''k'' 0 0)))) =
   (Return (),
    fst (snd (WriteH264 500 Success 40 30 [''abc'']
      (fst (snd (StartMuxer 1000 Success (new_Stream ''k'' 0 0)))))),
    []) \<and>
   WriteAAC 500 (Failure ''DTS is not monotonically increasing'') 40 ''abc''
     (fst (snd (StartMuxer 1000 Success (new_Stream ''k'' 0 0)))) =
   (Return (),
    fst (snd (WriteAAC 500 Success 40 ''abc''
      (fst (snd (StartMuxer 1000 Success (new_Stream ''k'' 0 0)))))),
    [Log ERROR ''Error writing AAC: %v'' [AStr ''DTS is not monotonically increasing'']])"
proof -
  let ?s = "fst (snd (StartMuxer 1000 Success (new_Stream ''k'' 0 0)))"
  have sub: "sublist ''DTS is not monotonically'' ''DTS is not monotonically increasing''"
    by (rule prefix_imp_sublist) simp
  have rdy: "muxerReady ?s"
    by (simp add: StartMuxer_def Let_def new_Stream_def)
  have m: "Muxer ?s \<noteq> None"
    by (simp add: StartMuxer_def Let_def new_Stream_def)
  from sub have "sublist ''DTS is not monotonically'' ''DTS is not monotonically increasing'' \<or>
      sublist ''unable to extract DTS'' ''DTS is not monotonically increasing''" by (rule disjI1)
  with rdy m have h: "muxerReady ?s \<and> Muxer ?s \<noteq> None \<and>
      (sublist ''DTS is not monotonically'' ''DTS is not monotonically increasing'' \<or>
       sublist ''unable to extract DTS'' ''DTS is not monotonically increasing'')"
    by (intro conjI)
  note w = audio_failure_logged [of ?s "''DTS is not monotonically increasing''" 500 40 30
      "[''abc'']" "''abc''", THEN mp, OF h]
  show ?thesis
    by (intro conjI) (rule sub, rule rdy, rule w [THEN conjunct1], rule w [THEN conjunct2])
qed

section \<open>The stream manager\<close>

lemma update_absent: "map_of al k = None \<Longrightarrow> AList.update k v al = al @ [(k, v)]"
  by (induction al) (auto split: if_splits)

lemma wf_world_entry:
  "wf_world w \<Longrightarrow> map_of (streams w) k = Some a \<Longrightarrow> a < length (heap w) \<and> Active (heap w ! a)"
proof -
  assume wf: "wf_world w" and m: "map_of (streams w) k = Some a"
  from m have "(k, a) \<in> set (streams w)" by (rule map_of_SomeD)
  with wf show ?thesis by (auto simp: wf_world_def list_all_iff)
qed

lemma GetOrCreateStream_existing:
  "map_of (streams w) k = Some a \<Longrightarrow> Active (heap w ! a) \<Longrightarrow>
   GetOrCreateStream k t t' w = ((a, None), w)"
  by (simp add: GetOrCreateStream_def)

lemma GetOrCreateStream_create:
  "\<not> (\<exists>a. map_of (streams w) k = Some a \<and> Active (heap w ! a)) \<Longrightarrow>
   GetOrCreateStream k t t' w =
     ((length (heap w), None),
      w\<lparr>heap := heap w @ [new_Stream k t t'],
        streams := AList.update k (length (heap w)) (streams w),
        logs := logs w @ [Log INFO ''Stream created: %s'' [AStr k]]\<rparr>)"
  by (auto simp: GetOrCreateStream_def Let_def addlog_def)

lemma GetOrCreateStream_wf:
  assumes "wf_world w"
  shows "wf_world (snd (GetOrCreateStream k t t' w))"
proof (cases "\<exists>a. map_of (streams w) k = Some a \<and> Active (heap w ! a)")
  case True
  then show ?thesis using assms by (auto simp: GetOrCreateStream_existing)
next
  case False
  have none: "map_of (streams w) k = None"
  proof (cases "map_of (streams w) k")
    case (Some a)
    with wf_world_entry [OF assms Some] False show ?thesis by simp
  qed simp
  have lt: "\<forall>x \<in> set (streams w). snd x < length (heap w)"
    using assms by (auto simp: wf_world_def list_all_iff)
  then have fresh: "length (heap w) \<notin> snd ` set (streams w)" by auto
  have knew: "k \<notin> fst ` set (streams w)"
    using none by (simp add: map_of_eq_None_iff)
  have old: "list_all (\<lambda>(k', a'). a' < Suc (length (heap w)) \<and>
      Active ((heap w @ [new_Stream k t t']) ! a')) (streams w)"
    using assms by (auto simp: wf_world_def list_all_iff nth_append)
  show ?thesis
    using assms fresh knew old
    by (simp add: GetOrCreateStream_create [OF False] update_absent [OF none] wf_world_def
        new_Stream_def)
qed

lemma new_Stream_Muxer: "Muxer (new_Stream k t t') = None"
  by (simp add: new_Stream_def)

lemma new_Stream_Active: "Active (new_Stream k t t')"
  by (simp add: new_Stream_def)

lemma RemoveStream_absent:
  "map_of (streams w) k = None \<Longrightarrow> RemoveStream k cl w = (Return (), w)"
  by (simp add: RemoveStream_def)

text \<open>
  On an entry of the map \<open>RemoveStream\<close> ends in one of two ways: it returns, with the
  stream inactive, the entry deleted and the line logged; or \<open>Close()\<close> panics, with
  the stream inactive and the entry still in the map.
\<close>

lemma RemoveStream_present:
  assumes "map_of (streams w) k = Some a"
  shows "\<exists>s'. \<not> Active s' \<and>
           (RemoveStream k cl w =
              (Return (),
               w\<lparr>heap := (heap w)[a := s'],
                 streams := AList.delete k (streams w),
                 logs := logs w @ [Log INFO ''Stream removed: %s'' [AStr k]]\<rparr>) \<or>
            (\<exists>p. cl = Panicking p \<and> Muxer (heap w ! a) \<noteq> None \<and>
               RemoveStream k cl w = (Panicking p, w\<lparr>heap := (heap w)[a := s']\<rparr>)))"
proof (cases "Muxer (heap w ! a)")
  case None
  with assms have "RemoveStream k cl w =
      (Return (),
       w\<lparr>heap := (heap w)[a := (heap w ! a)\<lparr>Active := False\<rparr>],
         streams := AList.delete k (streams w),
         logs := logs w @ [Log INFO ''Stream removed: %s'' [AStr k]]\<rparr>)"
    by (simp add: RemoveStream_def Let_def addlog_def)
  moreover have "\<not> Active ((heap w ! a)\<lparr>Active := False\<rparr>)" by simp
  ultimately show ?thesis by blast
next
  case (Some m)
  let ?s' = "(heap w ! a)\<lparr>Active := False, Muxer := Some (mux_call MClose m)\<rparr>"
  have na: "\<not> Active ?s'" by simp
  show ?thesis
  proof (cases cl)
    case (Return u)
    with assms Some have "RemoveStream k cl w =
      (Return (),
       w\<lparr>heap := (heap w)[a := ?s'],
         streams := AList.delete k (streams w),
         logs := logs w @ [Log INFO ''Stream removed: %s'' [AStr k]]\<rparr>)"
      by (simp add: RemoveStream_def Let_def addlog_def)
    with na show ?thesis by blast
  next
    case (Panicking p)
    with assms Some have "RemoveStream k cl w = (Panicking p, w\<lparr>heap := (heap w)[a := ?s']\<rparr>)"
      by (simp add: RemoveStream_def Let_def)
    with na Panicking Some show ?thesis by blast
  qed
qed

lemma RemoveStream_Return:
  assumes "map_of (streams w) k = Some a" and "fst (RemoveStream k cl w) = Return ()"
  shows "\<exists>s'. \<not> Active s' \<and>
           snd (RemoveStream k cl w) =
             w\<lparr>heap := (heap w)[a := s'],
               streams := AList.delete k (streams w),
               logs := logs w @ [Log INFO ''Stream removed: %s'' [AStr k]]\<rparr>"
  using RemoveStream_present [OF assms(1), of cl] assms(2) by auto

lemma RemoveStream_Close_returns: "fst (RemoveStream k (Return u) w) = Return ()"
  by (simp add: RemoveStream_def Let_def split: option.splits)

lemma RemoveStream_no_segmenter:
  "map_of (streams w) k = Some a \<Longrightarrow> Muxer (heap w ! a) = None \<Longrightarrow>
   fst (RemoveStream k cl w) = Return ()"
  by (simp add: RemoveStream_def Let_def)

lemma RemoveStream_lookup:
  "fst (RemoveStream k cl w) = Return () \<Longrightarrow> map_of (streams (snd (RemoveStream k cl w))) k = None"
proof (cases "map_of (streams w) k")
  case None
  then show ?thesis by (simp add: RemoveStream_absent)
next
  case (Some a)
  assume "fst (RemoveStream k cl w) = Return ()"
  from RemoveStream_Return [OF Some this] show ?thesis
    by (auto simp: AList.delete_conv')
qed

lemma RemoveStream_length: "length (heap (snd (RemoveStream k cl w))) = length (heap w)"
proof (cases "map_of (streams w) k")
  case None
  then show ?thesis by (simp add: RemoveStream_absent)
next
  case (Some a)
  from RemoveStream_present [OF Some, of cl] show ?thesis by auto
qed

lemma RemoveStream_inactive:
  "map_of (streams w) k = Some a \<Longrightarrow> a < length (heap w) \<Longrightarrow>
   \<not> Active (heap (snd (RemoveStream k cl w)) ! a)"
  using RemoveStream_present [of w k a cl] by auto

lemma RemoveStream_wf:
  assumes "wf_world w" and "fst (RemoveStream k cl w) = Return ()"
  shows "wf_world (snd (RemoveStream k cl w))"
proof (cases "map_of (streams w) k")
  case None
  with assms show ?thesis by (simp add: RemoveStream_absent)
next
  case (Some a)
  from RemoveStream_Return [OF Some assms(2)] obtain s' where
    w': "snd (RemoveStream k cl w) =
             w\<lparr>heap := (heap w)[a := s'],
               streams := AList.delete k (streams w),
               logs := logs w @ [Log INFO ''Stream removed: %s'' [AStr k]]\<rparr>"
    by blast
  have d1: "distinct (map fst (streams w))" and d2: "distinct (map snd (streams w))"
    using assms(1) by (simp_all add: wf_world_def)
  have mem: "(k, a) \<in> set (streams w)" using Some by (rule map_of_SomeD)
  have inj: "inj_on snd (set (streams w))" using d2 by (simp add: distinct_map)
  have other: "a' \<noteq> a" if "(k', a') \<in> set (streams w)" "k' \<noteq> k" for k' a'
  proof
    assume "a' = a"
    with that(1) mem inj_onD [OF inj, of "(k', a')" "(k, a)"] have "(k', a') = (k, a)" by simp
    with that(2) show False by simp
  qed
  have rest: "list_all (\<lambda>(k', a'). a' < length (heap w) \<and> Active ((heap w)[a := s'] ! a'))
      (AList.delete k (streams w))"
  proof -
    have "a' < length (heap w) \<and> Active ((heap w)[a := s'] ! a')"
      if "(k', a') \<in> set (streams w)" "k' \<noteq> k" for k' a'
    proof -
      from that have "a \<noteq> a'" using other by blast
      moreover from that(1) assms(1) have "a' < length (heap w) \<and> Active (heap w ! a')"
        by (auto simp: wf_world_def list_all_iff)
      ultimately show ?thesis by simp
    qed
    then show ?thesis by (auto simp: list_all_iff AList.delete_eq)
  qed
  have "distinct (map snd (AList.delete k (streams w)))"
    using d2 by (simp add: AList.delete_eq distinct_map_filter)
  with d1 rest show ?thesis
    by (simp add: w' wf_world_def AList.distinct_delete)
qed

lemma nth_update_Active:
  "b < length h \<Longrightarrow> Active (h ! b) \<Longrightarrow> Active s' = Active (h ! a) \<Longrightarrow> Active (h[a := s'] ! b)"
  by (cases "a = b") simp_all

lemma on_stream_wf:
  assumes "wf_world w" and "\<And>s. Active (fst (snd (f s))) = Active s"
  shows "wf_world (snd (on_stream a f w))"
proof -
  obtain r s' l where f: "f (heap w ! a) = (r, s', l)" by (cases "f (heap w ! a)")
  with assms(2) [of "heap w ! a"] have act: "Active s' = Active (heap w ! a)" by simp
  have "list_all (\<lambda>(k, b). b < length (heap w) \<and> Active ((heap w)[a := s'] ! b)) (streams w)"
    using assms(1) act by (auto simp: wf_world_def list_all_iff intro: nth_update_Active)
  with assms(1) f show ?thesis
    by (simp add: on_stream_def addlog_def wf_world_def)
qed

lemma StartMuxer_Active: "Active (fst (snd (StartMuxer now st s))) = Active s"
  by (cases st) (simp_all add: StartMuxer_def Let_def)

lemma live_handler_wf:
  assumes "wf_world w"
  shows "wf_world (snd (live_handler r w))"
proof -
  have upd: "wf_world (w\<lparr>heap := (heap w)[a := (heap w ! a)\<lparr>Muxer := Some m\<rparr>]\<rparr>)" for a m
    using assms by (auto simp: wf_world_def list_all_iff intro: nth_update_Active)
  show ?thesis
    using assms upd
    by (auto simp: live_handler_def Let_def split: option.splits)
qed

lemma step_wf: "wf_world w \<Longrightarrow> close_returns x \<Longrightarrow> wf_world (step x w)"
proof (cases x)
  case (OpSetAudioParams a sr ch)
  assume "wf_world w"
  then show ?thesis
    unfolding OpSetAudioParams step.simps
    by (auto intro!: on_stream_wf simp: SetAudioParams_def)
next
  case (OpRemoveStream k cl)
  assume wf: "wf_world w" and "close_returns x"
  with OpRemoveStream obtain u where "cl = Return u" by (cases cl) simp_all
  then have "fst (RemoveStream k cl w) = Return ()" by (simp add: RemoveStream_Close_returns)
  with wf show ?thesis unfolding OpRemoveStream step.simps by (rule RemoveStream_wf)
qed (auto intro!: on_stream_wf GetOrCreateStream_wf live_handler_wf
       simp: SetVideoParams_def StartMuxer_Active WriteH264_keeps WriteAAC_keeps)

lemma run_wf: "wf_world w \<Longrightarrow> list_all close_returns xs \<Longrightarrow> wf_world (run xs w)"
  by (induction xs arbitrary: w) (simp_all add: step_wf)

lemma NewManager_wf: "wf_world (NewManager dir)"
  by (simp add: NewManager_def wf_world_def)

lemma wf_all_active: "wf_world w \<Longrightarrow> filter (\<lambda>(k, a). Active (heap w ! a)) (streams w) = streams w"
  by (auto simp: wf_world_def list_all_iff intro!: filter_True)

lemma wf_card_keys: "wf_world w \<Longrightarrow> card (dom (map_of (streams w))) = length (streams w)"
proof -
  assume "wf_world w"
  then have "distinct (map fst (streams w))" by (simp add: wf_world_def)
  then have "card (set (map fst (streams w))) = length (map fst (streams w))"
    by (rule distinct_card)
  then show ?thesis by (simp add: dom_map_of_conv_image_fst)
qed

lemma GetOrCreateStream_twice:
  "fst (GetOrCreateStream k u u' (snd (GetOrCreateStream k t t' w))) = fst (GetOrCreateStream k t t' w) \<and>
   snd (GetOrCreateStream k u u' (snd (GetOrCreateStream k t t' w))) = snd (GetOrCreateStream k t t' w)"
proof (cases "\<exists>a. map_of (streams w) k = Some a \<and> Active (heap w ! a)")
  case True
  then obtain a where "map_of (streams w) k = Some a" "Active (heap w ! a)" by blast
  then show ?thesis by (simp add: GetOrCreateStream_existing)
next
  case False
  let ?w1 = "w\<lparr>heap := heap w @ [new_Stream k t t'],
        streams := AList.update k (length (heap w)) (streams w),
        logs := logs w @ [Log INFO ''Stream created: %s'' [AStr k]]\<rparr>"
  have "map_of (streams ?w1) k = Some (length (heap w))" "Active (heap ?w1 ! length (heap w))"
    by (simp_all add: AList.update_conv' new_Stream_def)
  then have "GetOrCreateStream k u u' ?w1 = ((length (heap w), None), ?w1)"
    by (rule GetOrCreateStream_existing)
  then show ?thesis by (simp add: GetOrCreateStream_create [OF False])
qed

lemma GetOrCreateStream_valid:
  assumes "wf_world w"
  shows "fst (fst (GetOrCreateStream k t t' w)) < length (heap (snd (GetOrCreateStream k t t' w))) \<and>
         map_of (streams (snd (GetOrCreateStream k t t' w))) k = Some (fst (fst (GetOrCreateStream k t t' w))) \<and>
         Active (heap (snd (GetOrCreateStream k t t' w)) ! fst (fst (GetOrCreateStream k t t' w))) \<and>
         snd (fst (GetOrCreateStream k t t' w)) = None"
proof (cases "\<exists>a. map_of (streams w) k = Some a \<and> Active (heap w ! a)")
  case True
  then obtain a where a: "map_of (streams w) k = Some a" "Active (heap w ! a)" by blast
  with wf_world_entry [OF assms a(1)] show ?thesis by (simp add: GetOrCreateStream_existing)
next
  case False
  then show ?thesis
    by (simp add: GetOrCreateStream_create [OF False] AList.update_conv' new_Stream_def)
qed

lemma GetOrCreateStream_after_remove:
  assumes "wf_world w"
  shows "(let ((a, e), w1) = GetOrCreateStream k t t' w;
              (r, w2) = RemoveStream k cl w1;
              ((b, e'), w3) = GetOrCreateStream k u u' w2
          in b \<noteq> a \<and> b = length (heap w2) \<and> heap w3 ! b = new_Stream k u u' \<and>
             \<not> Active (heap w3 ! a) \<and> (r = Return () \<longrightarrow> GetStream w2 k = None) \<and>
             GetStream w3 k = Some b)"
proof -
  obtain a e w1 where g1: "GetOrCreateStream k t t' w = ((a, e), w1)"
    by (metis prod.collapse)
  from GetOrCreateStream_valid [OF assms, of k t t'] g1
  have a: "a < length (heap w1)" "map_of (streams w1) k = Some a" by simp_all
  obtain r w2 where rs: "RemoveStream k cl w1 = (r, w2)" by (cases "RemoveStream k cl w1")
  have len: "length (heap w2) = length (heap w1)"
    using RemoveStream_length [of k cl w1] rs by simp
  have inactive: "\<not> Active (heap w2 ! a)"
    using RemoveStream_inactive [OF a(2) a(1), of cl] rs by simp
  have ret: "r = Return () \<longrightarrow> map_of (streams w2) k = None"
    using RemoveStream_lookup [of k cl w1] rs by simp
  have same: "map_of (streams w2) k = None \<or> map_of (streams w2) k = Some a"
    using RemoveStream_present [OF a(2), of cl] rs a(2) by (auto simp: AList.delete_conv')
  with inactive have no: "\<not> (\<exists>a'. map_of (streams w2) k = Some a' \<and> Active (heap w2 ! a'))"
    by auto
  show ?thesis
    using a(1) len inactive ret
    by (simp add: g1 rs GetOrCreateStream_create [OF no] GetStream_def AList.update_conv'
        nth_append)
qed

text \<open>
  C1. For every key: when the map has an entry for the key and that stream is active,
  \<open>GetOrCreateStream\<close> returns that very entry and changes nothing; otherwise it
  allocates a new stream (its key the given one, active, its creation time the clock
  reading) and stores it under the key. So a second call right after a first returns
  the identical entry and leaves the manager as it was, and in a well-formed manager a
  call after \<open>RemoveStream\<close> of the key returns a newly allocated entry, distinct
  from the removed one, which is no longer active; this whatever \<open>Close()\<close> of the
  segmenter does, and when \<open>RemoveStream\<close> returns the map has no entry for the key
  in between.
\<close>

theorem GetOrCreateStream_spec:
  "(map_of (streams w) k = Some a \<and> Active (heap w ! a) \<longrightarrow>
      GetOrCreateStream k t t' w = ((a, None), w)) \<and>
   (\<not> (\<exists>a. map_of (streams w) k = Some a \<and> Active (heap w ! a)) \<longrightarrow>
      (let ((b, e), w') = GetOrCreateStream k t t' w
       in b = length (heap w) \<and> e = None \<and>
          heap w' = heap w @ [new_Stream k t t'] \<and>
          map_of (streams w') = (map_of (streams w))(k \<mapsto> b) \<and>
          Key (heap w' ! b) = k \<and> Active (heap w' ! b) \<and> StartTime (heap w' ! b) = t)) \<and>
   fst (GetOrCreateStream k u u' (snd (GetOrCreateStream k t t' w))) = fst (GetOrCreateStream k t t' w) \<and>
   snd (GetOrCreateStream k u u' (snd (GetOrCreateStream k t t' w))) = snd (GetOrCreateStream k t t' w) \<and>
   (wf_world w \<longrightarrow>
      (let ((a, e), w1) = GetOrCreateStream k t t' w;
           (r, w2) = RemoveStream k cl w1;
           ((b, e'), w3) = GetOrCreateStream k u u' w2
       in b \<noteq> a \<and> b = length (heap w2) \<and> heap w3 ! b = new_Stream k u u' \<and>
          \<not> Active (heap w3 ! a) \<and> (r = Return () \<longrightarrow> GetStream w2 k = None) \<and>
          GetStream w3 k = Some b)) \<and>
   fst (RemoveStream k (Return ()) w) = Return ()"
proof -
  have create: "\<not> (\<exists>a. map_of (streams w) k = Some a \<and> Active (heap w ! a)) \<longrightarrow>
      (let ((b, e), w') = GetOrCreateStream k t t' w
       in b = length (heap w) \<and> e = None \<and>
          heap w' = heap w @ [new_Stream k t t'] \<and>
          map_of (streams w') = (map_of (streams w))(k \<mapsto> b) \<and>
          Key (heap w' ! b) = k \<and> Active (heap w' ! b) \<and> StartTime (heap w' ! b) = t)"
    by (auto simp: GetOrCreateStream_create AList.update_conv' new_Stream_def)
  show ?thesis
    using create GetOrCreateStream_twice [of k u u' t t' w]
      GetOrCreateStream_after_remove [of w k t t' cl u u']
    by (simp add: GetOrCreateStream_existing RemoveStream_Close_returns)
qed

theorem GetOrCreateStream_spec_witness:
  "wf_world (NewManager ''hls'') \<and>
   GetOrCreateStream ''k'' 10 11 (NewManager ''hls'') =
     ((0, None),
      \<lparr>streams = [(''k'', 0)], hlsDir = ''hls'', heap = [new_Stream ''k'' 10 11],
       logs = [Log INFO ''Stream created: %s'' [AStr ''k'']]\<rparr>) \<and>
   fst (GetOrCreateStream ''k'' 20 21 (snd (GetOrCreateStream ''k'' 10 11 (NewManager ''hls'')))) = (0, None) \<and>
   fst (RemoveStream ''k'' (Return ()) (snd (GetOrCreateStream ''k'' 10 11 (NewManager ''hls'')))) = Return () \<and>
   GetStream (snd (RemoveStream ''k'' (Return ()) (snd (GetOrCreateStream ''k'' 10 11 (NewManager ''hls''))))) ''k'' = None \<and>
   fst (GetOrCreateStream ''k'' 30 31
     (snd (RemoveStream ''k'' (Return ()) (snd (GetOrCreateStream ''k'' 10 11 (NewManager ''hls'')))))) = (1, None) \<and>
   wf_world (run [OpGetOrCreateStream ''k'' 10 11, OpStartMuxer 0 12 (Failure ''no tracks'')]
     (NewManager ''hls'')) \<and>
   fst (GetOrCreateStream ''k'' 20 21
     (run [OpGetOrCreateStream ''k'' 10 11, OpStartMuxer 0 12 (Failure ''no tracks'')]
       (NewManager ''hls''))) = (0, None) \<and>
   fst (RemoveStream ''k'' (Panicking ''close'')
     (run [OpGetOrCreateStream ''k'' 10 11, OpStartMuxer 0 12 (Failure ''no tracks'')]
       (NewManager ''hls''))) = Panicking ''close'' \<and>
   fst (GetOrCreateStream ''k'' 30 31
     (snd (RemoveStream ''k'' (Panicking ''close'')
       (run [OpGetOrCreateStream ''k'' 10 11, OpStartMuxer 0 12 (Failure ''no tracks'')]
         (NewManager ''hls''))))) = (1, None)"
proof -
  let ?xs = "[OpGetOrCreateStream ''k'' 10 11, OpStartMuxer 0 12 (Failure ''no tracks'')]"
  let ?w = "run ?xs (NewManager ''hls'')"
  have "list_all close_returns ?xs" by simp
  then have wf: "wf_world ?w" by (rule run_wf [OF NewManager_wf])
  have ret: "wf_world (NewManager ''hls'') \<and>
   GetOrCreateStream ''k'' 10 11 (NewManager ''hls'') =
     ((0, None),
      \<lparr>streams = [(''k'', 0)], hlsDir = ''hls'', heap = [new_Stream ''k'' 10 11],
       logs = [Log INFO ''Stream created: %s'' [AStr ''k'']]\<rparr>) \<and>
   fst (GetOrCreateStream ''k'' 20 21 (snd (GetOrCreateStream ''k'' 10 11 (NewManager ''hls'')))) = (0, None) \<and>
   fst (RemoveStream ''k'' (Return ()) (snd (GetOrCreateStream ''k'' 10 11 (NewManager ''hls'')))) = Return () \<and>
   GetStream (snd (RemoveStream ''k'' (Return ()) (snd (GetOrCreateStream ''k'' 10 11 (NewManager ''hls''))))) ''k'' = None \<and>
   fst (GetOrCreateStream ''k'' 30 31
     (snd (RemoveStream ''k'' (Return ()) (snd (GetOrCreateStream ''k'' 10 11 (NewManager ''hls'')))))) = (1, None)"
    using GetOrCreateStream_spec [of "NewManager ''hls''" "''k''" 0 10 11 20 21 "Return ()"]
      GetOrCreateStream_spec [of "NewManager ''hls''" "''k''" 0 10 11 30 31 "Return ()"]
      NewManager_wf [of "''hls''"]
    by (simp add: NewManager_def Let_def split_beta RemoveStream_def GetOrCreateStream_def addlog_def
        GetStream_def new_Stream_Muxer new_Stream_Active)
  have w: "map_of (streams ?w) ''k'' = Some 0" "Active (heap ?w ! 0)" "length (heap ?w) = 1"
    "Muxer (heap ?w ! 0) \<noteq> None"
    by (simp_all add: NewManager_def Let_def GetOrCreateStream_def addlog_def on_stream_def
        StartMuxer_def new_Stream_def)
  have g: "GetOrCreateStream ''k'' 20 21 ?w = ((0, None), ?w)"
    using GetOrCreateStream_spec [of ?w "''k''" 0 20 21, THEN conjunct1] w(1) w(2) by blast
  obtain r w2 where rs: "RemoveStream ''k'' (Panicking ''close'') ?w = (r, w2)"
    by (cases "RemoveStream ''k'' (Panicking ''close'') ?w")
  have len: "length (heap w2) = 1"
    using RemoveStream_length [of "''k''" "Panicking ''close''" ?w] rs w(3) by simp
  obtain m where m: "Muxer (heap ?w ! 0) = Some m" using w(4) by auto
  have r: "r = Panicking ''close''"
    using rs w(1) m by (simp add: RemoveStream_def Let_def)
  note p = GetOrCreateStream_spec [of ?w "''k''" 0 20 21 30 31 "Panicking ''close''",
      THEN conjunct2, THEN conjunct2, THEN conjunct2, THEN conjunct2, THEN conjunct1, THEN mp, OF wf]
  have fresh: "fst (GetOrCreateStream ''k'' 30 31 w2) = (1, None)"
  proof -
    obtain b e w3 where g3: "GetOrCreateStream ''k'' 30 31 w2 = ((b, e), w3)"
      by (metis prod.collapse)
    from p have "b = length (heap w2)" by (simp only: Let_def g rs g3 prod.case)
    moreover have "e = None"
      using g3 by (auto simp: GetOrCreateStream_def Let_def split: if_splits)
    ultimately show ?thesis by (simp add: g3 len)
  qed
  have 1: "fst (GetOrCreateStream ''k'' 20 21 ?w) = (0, None)" by (simp only: g fst_conv)
  have 2: "fst (RemoveStream ''k'' (Panicking ''close'') ?w) = Panicking ''close''"
    by (simp only: rs r fst_conv)
  have 3: "fst (GetOrCreateStream ''k'' 30 31 (snd (RemoveStream ''k'' (Panicking ''close'') ?w))) = (1, None)"
    by (simp only: rs snd_conv fresh)
  show ?thesis
    by (intro conjI) (rule ret [THEN conjunct1], rule ret [THEN conjunct2, THEN conjunct1],
      rule ret [THEN conjunct2, THEN conjunct2, THEN conjunct1],
      rule ret [THEN conjunct2, THEN conjunct2, THEN conjunct2, THEN conjunct1],
      rule ret [THEN conjunct2, THEN conjunct2, THEN conjunct2, THEN conjunct2, THEN conjunct1],
      rule ret [THEN conjunct2, THEN conjunct2, THEN conjunct2, THEN conjunct2, THEN conjunct2],
      rule wf, rule 1, rule 2, rule 3)
qed

text \<open>
  When \<open>Close()\<close> returns in every removal, the manager stays well-formed: the manager
  made by \<open>NewManager\<close> is well-formed, every operation keeps a well-formed manager
  well-formed, hence so is the manager after any run. In a well-formed manager every
  stream in the map is active; so the filters of \<open>StreamCount\<close> and \<open>GetAllStreams\<close>
  drop no entry, \<open>StreamCount\<close> is the number of entries (and of keys) of the map,
  \<open>GetAllStreams\<close> has one element per entry, and \<open>GetStream\<close> returns nil or an
  active stream.
\<close>

lemma manager_invariant_when_Close_returns:
  "wf_world (NewManager dir) \<and>
   (wf_world w \<longrightarrow>
      wf_world (snd (GetOrCreateStream k t t' w)) \<and>
      (fst (RemoveStream k cl w) = Return () \<longrightarrow> wf_world (snd (RemoveStream k cl w))) \<and>
      (close_returns x \<longrightarrow> wf_world (step x w))) \<and>
   (list_all close_returns xs \<longrightarrow> wf_world (run xs (NewManager dir))) \<and>
   (wf_world w \<longrightarrow>
      (\<forall>(k', a) \<in> set (streams w). Active (heap w ! a)) \<and>
      filter (\<lambda>(k', a). Active (heap w ! a)) (streams w) = streams w \<and>
      StreamCount w = length (streams w) \<and>
      StreamCount w = card (dom (map_of (streams w))) \<and>
      (case GetStream w k of None \<Rightarrow> True | Some a \<Rightarrow> Active (heap w ! a)) \<and>
      GetAllStreams w = map (\<lambda>(k', a). info_of (heap w ! a)) (streams w) \<and>
      length (GetAllStreams w) = length (streams w))"
proof -
  have pres: "wf_world w \<longrightarrow>
      wf_world (snd (GetOrCreateStream k t t' w)) \<and>
      (fst (RemoveStream k cl w) = Return () \<longrightarrow> wf_world (snd (RemoveStream k cl w))) \<and>
      (close_returns x \<longrightarrow> wf_world (step x w))"
    by (simp add: GetOrCreateStream_wf RemoveStream_wf step_wf)
  have reach: "list_all close_returns xs \<longrightarrow> wf_world (run xs (NewManager dir))"
    by (simp add: run_wf [OF NewManager_wf])
  have cons: "wf_world w \<longrightarrow>
      (\<forall>(k', a) \<in> set (streams w). Active (heap w ! a)) \<and>
      filter (\<lambda>(k', a). Active (heap w ! a)) (streams w) = streams w \<and>
      StreamCount w = length (streams w) \<and>
      StreamCount w = card (dom (map_of (streams w))) \<and>
      (case GetStream w k of None \<Rightarrow> True | Some a \<Rightarrow> Active (heap w ! a)) \<and>
      GetAllStreams w = map (\<lambda>(k', a). info_of (heap w ! a)) (streams w) \<and>
      length (GetAllStreams w) = length (streams w)"
  proof
    assume wf: "wf_world w"
    have all: "\<forall>(k', a) \<in> set (streams w). Active (heap w ! a)"
      using wf by (auto simp: wf_world_def list_all_iff)
    have get: "case GetStream w k of None \<Rightarrow> True | Some a \<Rightarrow> Active (heap w ! a)"
      using wf_world_entry [OF wf] by (simp add: GetStream_def split: option.splits)
    from all get show "(\<forall>(k', a) \<in> set (streams w). Active (heap w ! a)) \<and>
      filter (\<lambda>(k', a). Active (heap w ! a)) (streams w) = streams w \<and>
      StreamCount w = length (streams w) \<and>
      StreamCount w = card (dom (map_of (streams w))) \<and>
      (case GetStream w k of None \<Rightarrow> True | Some a \<Rightarrow> Active (heap w ! a)) \<and>
      GetAllStreams w = map (\<lambda>(k', a). info_of (heap w ! a)) (streams w) \<and>
      length (GetAllStreams w) = length (streams w)"
      by (simp add: StreamCount_def GetAllStreams_def wf_all_active [OF wf] wf_card_keys [OF wf])
  qed
  from NewManager_wf pres reach cons show ?thesis by blast
qed

lemma manager_invariant_example:
  "streams (run [OpGetOrCreateStream ''a'' 1 2, OpGetOrCreateStream ''b'' 3 4,
      OpRemoveStream ''a'' (Return ())] (NewManager ''d'')) = [(''b'', 1)] \<and>
   wf_world (run [OpGetOrCreateStream ''a'' 1 2, OpGetOrCreateStream ''b'' 3 4,
      OpRemoveStream ''a'' (Return ())] (NewManager ''d''))"
proof -
  let ?xs = "[OpGetOrCreateStream ''a'' 1 2, OpGetOrCreateStream ''b'' 3 4,
      OpRemoveStream ''a'' (Return ())]"
  have s: "streams (run ?xs (NewManager ''d'')) = [(''b'', 1)]"
    by (simp add: NewManager_def GetOrCreateStream_def RemoveStream_def addlog_def Let_def
        new_Stream_def)
  have "list_all close_returns ?xs" by simp
  then have "wf_world (run ?xs (NewManager ''d''))"
    by (rule run_wf [OF NewManager_wf])
  with s show ?thesis by (simp only: simp_thms)
qed

text \<open>
  C9. The invariant is not preserved by \<open>RemoveStream\<close>. In a well-formed manager, on
  a key whose stream holds a segmenter (also one whose \<open>Start()\<close> failed: \<open>StartMuxer\<close>
  stores the segmenter before it starts it), a \<open>Close()\<close> that panics ends
  \<open>RemoveStream\<close> behind \<open>s.Active = false\<close> and before \<open>delete\<close>: the map is as it
  was and still holds the stream, which is now inactive. The manager is no longer
  well-formed, \<open>GetStream\<close> returns an inactive stream, and the filters of
  \<open>StreamCount\<close> and \<open>GetAllStreams\<close> drop the entry, so that both are smaller
  than the number of entries of the map.
\<close>

theorem RemoveStream_Close_panics:
  "wf_world w \<and> map_of (streams w) k = Some a \<and> Muxer (heap w ! a) \<noteq> None \<longrightarrow>
     fst (RemoveStream k (Panicking p) w) = Panicking p \<and>
     streams (snd (RemoveStream k (Panicking p) w)) = streams w \<and>
     logs (snd (RemoveStream k (Panicking p) w)) = logs w \<and>
     GetStream (snd (RemoveStream k (Panicking p) w)) k = Some a \<and>
     \<not> Active (heap (snd (RemoveStream k (Panicking p) w)) ! a) \<and>
     \<not> wf_world (snd (RemoveStream k (Panicking p) w)) \<and>
     StreamCount (snd (RemoveStream k (Panicking p) w)) <
       length (streams (snd (RemoveStream k (Panicking p) w))) \<and>
     length (GetAllStreams (snd (RemoveStream k (Panicking p) w))) <
       length (streams (snd (RemoveStream k (Panicking p) w)))"
proof
  assume asm: "wf_world w \<and> map_of (streams w) k = Some a \<and> Muxer (heap w ! a) \<noteq> None"
  then have wf: "wf_world w" and e: "map_of (streams w) k = Some a"
    and mx: "Muxer (heap w ! a) \<noteq> None"
    by simp_all
  let ?w = "snd (RemoveStream k (Panicking p) w)"
  from mx obtain m where m: "Muxer (heap w ! a) = Some m" by auto
  have rs: "RemoveStream k (Panicking p) w =
      (Panicking p,
       w\<lparr>heap := (heap w)[a := (heap w ! a)\<lparr>Active := False, Muxer := Some (mux_call MClose m)\<rparr>]\<rparr>)"
    using e m by (simp add: RemoveStream_def Let_def)
  have a: "a < length (heap w)" using wf_world_entry [OF wf e] by simp
  have mem: "(k, a) \<in> set (streams w)" using e by (rule map_of_SomeD)
  have st: "streams ?w = streams w" by (simp add: rs)
  have na: "\<not> Active (heap ?w ! a)" using a by (simp add: rs)
  have nwf: "\<not> wf_world ?w"
    using mem na st by (auto simp: wf_world_def list_all_iff)
  have mem': "(k, a) \<in> set (streams ?w)" using mem st by simp
  have "\<not> (\<lambda>(k', a'). Active (heap ?w ! a')) (k, a)" using na by simp
  with mem' have less:
    "length (filter (\<lambda>(k', a'). Active (heap ?w ! a')) (streams ?w)) < length (streams ?w)"
    by (rule length_filter_less)
  show "fst (RemoveStream k (Panicking p) w) = Panicking p \<and>
     streams ?w = streams w \<and> logs ?w = logs w \<and> GetStream ?w k = Some a \<and>
     \<not> Active (heap ?w ! a) \<and> \<not> wf_world ?w \<and>
     StreamCount ?w < length (streams ?w) \<and>
     length (GetAllStreams ?w) < length (streams ?w)"
    using st na nwf less e
    by (simp add: StreamCount_def GetAllStreams_def GetStream_def) (simp add: rs)
qed

theorem RemoveStream_Close_panics_witness:
  "wf_world (run [OpGetOrCreateStream ''abc'' 1 2, OpStartMuxer 0 3 (Failure ''no tracks'')]
      (NewManager ''hls'')) \<and>
   streams (run [OpGetOrCreateStream ''abc'' 1 2, OpStartMuxer 0 3 (Failure ''no tracks''),
      OpRemoveStream ''abc'' (Panicking ''close'')] (NewManager ''hls'')) = [(''abc'', 0)] \<and>
   \<not> Active (heap (run [OpGetOrCreateStream ''abc'' 1 2, OpStartMuxer 0 3 (Failure ''no tracks''),
      OpRemoveStream ''abc'' (Panicking ''close'')] (NewManager ''hls'')) ! 0) \<and>
   GetStream (run [OpGetOrCreateStream ''abc'' 1 2, OpStartMuxer 0 3 (Failure ''no tracks''),
      OpRemoveStream ''abc'' (Panicking ''close'')] (NewManager ''hls'')) ''abc'' = Some 0 \<and>
   StreamCount (run [OpGetOrCreateStream ''abc'' 1 2, OpStartMuxer 0 3 (Failure ''no tracks''),
      OpRemoveStream ''abc'' (Panicking ''close'')] (NewManager ''hls'')) = 0 \<and>
   GetAllStreams (run [OpGetOrCreateStream ''abc'' 1 2, OpStartMuxer 0 3 (Failure ''no tracks''),
      OpRemoveStream ''abc'' (Panicking ''close'')] (NewManager ''hls'')) = [] \<and>
   \<not> wf_world (run [OpGetOrCreateStream ''abc'' 1 2, OpStartMuxer 0 3 (Failure ''no tracks''),
      OpRemoveStream ''abc'' (Panicking ''close'')] (NewManager ''hls''))"
proof -
  let ?xs = "[OpGetOrCreateStream ''abc'' 1 2, OpStartMuxer 0 3 (Failure ''no tracks'')]"
  let ?w = "run ?xs (NewManager ''hls'')"
  let ?w' = "snd (RemoveStream ''abc'' (Panicking ''close'') ?w)"
  have run3: "run [OpGetOrCreateStream ''abc'' 1 2, OpStartMuxer 0 3 (Failure ''no tracks''),
      OpRemoveStream ''abc'' (Panicking ''close'')] (NewManager ''hls'') = ?w'"
    by simp
  have "list_all close_returns ?xs" by simp
  then have wf: "wf_world ?w" by (rule run_wf [OF NewManager_wf])
  have s: "streams ?w = [(''abc'', 0)]"
    by (simp add: NewManager_def GetOrCreateStream_def addlog_def Let_def on_stream_def
        StartMuxer_def new_Stream_def)
  have e: "map_of (streams ?w) ''abc'' = Some 0" by (simp only: s) simp
  have m: "Muxer (heap ?w ! 0) \<noteq> None"
    by (simp add: NewManager_def GetOrCreateStream_def addlog_def Let_def on_stream_def
        StartMuxer_def new_Stream_def)
  note p = RemoveStream_Close_panics [of ?w "''abc''" 0 "''close''", THEN mp, OF conjI [OF wf conjI [OF e m]]]
  have st: "streams ?w' = [(''abc'', 0)]"
    using p [THEN conjunct2, THEN conjunct1] by (simp only: s)
  have na: "\<not> Active (heap ?w' ! 0)"
    by (rule p [THEN conjunct2, THEN conjunct2, THEN conjunct2, THEN conjunct2, THEN conjunct1])
  have g: "GetStream ?w' ''abc'' = Some 0"
    by (rule p [THEN conjunct2, THEN conjunct2, THEN conjunct2, THEN conjunct1])
  have nwf: "\<not> wf_world ?w'"
    by (rule p [THEN conjunct2, THEN conjunct2, THEN conjunct2, THEN conjunct2, THEN conjunct2,
        THEN conjunct1])
  have c: "StreamCount ?w' = 0"
    unfolding StreamCount_def st using na by simp
  have ga: "GetAllStreams ?w' = []"
    unfolding GetAllStreams_def st using na by simp
  from wf st na g c ga nwf show ?thesis
    unfolding run3 by (simp only: simp_thms)
qed

section \<open>Serving bridge\<close>








section \<open>Teardown of a session\<close>

lemma quiet_Nil [simp]: "quiet []"
  by (simp add: quiet_def count_format_def)

lemma quiet_append [simp]: "quiet (l @ l') \<longleftrightarrow> quiet l \<and> quiet l'"
  by (auto simp: quiet_def count_format_def)

lemma quiet_single:
  "f \<noteq> ''Stream removed: %s'' \<Longrightarrow> f \<noteq> ''Publisher disconnected: %s'' \<Longrightarrow> quiet [Log lv f args]"
  by (simp add: quiet_def count_format_def)

lemma extends_refl [simp]: "extends w w"
  by (simp add: extends_def)

lemma extends_trans: "extends w w' \<Longrightarrow> extends w' w'' \<Longrightarrow> extends w w''"
  by (auto simp: extends_def)

lemma extends_addlog: "quiet l \<Longrightarrow> extends w (addlog l w)"
  by (auto simp: extends_def addlog_def)

lemma extends_on_stream:
  assumes "\<And>s. quiet (snd (snd (f s)))"
  shows "extends w (snd (on_stream a f w))"
proof -
  obtain r s' l where f: "f (heap w ! a) = (r, s', l)" by (cases "f (heap w ! a)")
  with assms [of "heap w ! a"] have "quiet l" by simp
  with f show ?thesis by (auto simp: on_stream_def extends_def addlog_def)
qed

lemma quiet_WriteH264: "quiet (snd (snd (WriteH264 now wr pts dts au s)))"
proof (cases "muxerReady s \<and> Muxer s \<noteq> None")
  case True
  then obtain m where "Muxer s = Some m" by auto
  with True show ?thesis
    by (cases wr) (simp_all add: WriteH264_ready quiet_single)
next
  case False
  then have "\<not> muxerReady s \<or> Muxer s = None" by simp
  then show ?thesis by (simp add: WriteH264_def WriteH264_body_dropped)
qed

lemma quiet_WriteAAC: "quiet (snd (snd (WriteAAC now wr pts au s)))"
proof (cases "muxerReady s \<and> Muxer s \<noteq> None")
  case True
  then obtain m where "Muxer s = Some m" by auto
  with True show ?thesis
    by (cases wr) (simp_all add: WriteAAC_ready quiet_single)
next
  case False
  then have "\<not> muxerReady s \<or> Muxer s = None" by simp
  then show ?thesis by (simp add: WriteAAC_def WriteAAC_body_dropped)
qed

lemma quiet_StartMuxer: "quiet (snd (snd (StartMuxer now st s)))"
  by (cases st) (simp_all add: StartMuxer_def Let_def quiet_single)

lemma extends_discover: "extends w (snd (discover k a ts flags w))"
proof (induction k a ts flags w rule: discover.induct)
  case (1 k a flags w)
  show ?case by simp
next
  case (2 k a SPS' PPS' ts hasVideo hasAudio w)
  let ?w1 = "addlog [Log INFO ''Stream %s: H264 video track detected'' [AStr k]] w"
  let ?w2 = "if length SPS' > 0 \<and> length PPS' > 0
             then snd (on_stream a (\<lambda>s. ((), SetVideoParams SPS' PPS' s, [])) ?w1) else ?w1"
  have e1: "extends w ?w1" by (rule extends_addlog) (simp add: quiet_single)
  have "extends ?w1 ?w2" by (simp add: extends_on_stream)
  with e1 have "extends w ?w2" by (rule extends_trans)
  moreover have "extends ?w2 (snd (discover k a ts (True, hasAudio) ?w2))"
    using 2 by (simp add: Let_def)
  ultimately have "extends w (snd (discover k a ts (True, hasAudio) ?w2))"
    by (rule extends_trans)
  then show ?case by (simp add: Let_def)
next
  case (3 k a sampleRate channelCount ts hasVideo hasAudio w)
  let ?w1 = "addlog [Log INFO ''Stream %s: AAC audio track detected (SampleRate=%d, Channels=%d)''
                         [AStr k, AInt sampleRate, AInt channelCount]] w"
  let ?w2 = "snd (on_stream a (\<lambda>s. case SetAudioParams sampleRate channelCount s of
                                         (s', l) \<Rightarrow> ((), s', l)) ?w1)"
  have e1: "extends w ?w1" by (rule extends_addlog) (simp add: quiet_single)
  have "extends ?w1 ?w2"
    by (rule extends_on_stream) (simp add: SetAudioParams_def quiet_single)
  with e1 have "extends w ?w2" by (rule extends_trans)
  moreover have "extends ?w2 (snd (discover k a ts (hasVideo, True) ?w2))"
    using 3 by (simp add: Let_def)
  ultimately have "extends w (snd (discover k a ts (hasVideo, True) ?w2))"
    by (rule extends_trans)
  then show ?case by (simp add: Let_def)
next
  case (4 k a ts flags w)
  then show ?case by simp
qed

lemma on_stream_fst: "fst (on_stream a f w) = fst (f (heap w ! a))"
  by (cases "f (heap w ! a)") (simp add: on_stream_def)

lemma on_stream_WriteH264_returns: "fst (on_stream a (WriteH264 now wr pts dts au) w) = Return ()"
  by (simp add: on_stream_fst WriteH264_returns)

lemma on_stream_WriteAAC_returns: "fst (on_stream a (WriteAAC now wr pts au) w) = Return ()"
  by (simp add: on_stream_fst WriteAAC_returns)

lemma deliver_extends: "fst (deliver a flags us w) = Return () \<and> extends w (snd (deliver a flags us w))"
proof (induction a flags us w rule: deliver.induct)
  case (1 a flags w)
  show ?case by simp
next
  case (2 a flags pts dts au now wr us w)
  show ?case
  proof (cases "fst flags")
    case False
    with 2 show ?thesis by simp
  next
    case True
    obtain r w' where o: "on_stream a (WriteH264 now wr pts dts au) w = (r, w')"
      by (cases "on_stream a (WriteH264 now wr pts dts au) w")
    with on_stream_WriteH264_returns [of a now wr pts dts au w] have r: "r = Return ()" by simp
    have "extends w (snd (on_stream a (WriteH264 now wr pts dts au) w))"
      by (rule extends_on_stream) (rule quiet_WriteH264)
    with o have e: "extends w w'" by simp
    note ih = 2(1) [OF True o [symmetric] r]
    from e ih [THEN conjunct2] have "extends w (snd (deliver a flags us w'))"
      by (rule extends_trans)
    with ih [THEN conjunct1] True o r show ?thesis by simp
  qed
next
  case (3 a flags pts au now wr us w)
  show ?case
  proof (cases "snd flags")
    case False
    with 3 show ?thesis by simp
  next
    case True
    obtain r w' where o: "on_stream a (WriteAAC now wr pts au) w = (r, w')"
      by (cases "on_stream a (WriteAAC now wr pts au) w")
    with on_stream_WriteAAC_returns [of a now wr pts au w] have r: "r = Return ()" by simp
    have "extends w (snd (on_stream a (WriteAAC now wr pts au) w))"
      by (rule extends_on_stream) (rule quiet_WriteAAC)
    with o have e: "extends w w'" by simp
    note ih = 3(1) [OF True o [symmetric] r]
    from e ih [THEN conjunct2] have "extends w (snd (deliver a flags us w'))"
      by (rule extends_trans)
    with ih [THEN conjunct1] True o r show ?thesis by simp
  qed
qed

lemma read_loop_extends: "read_loop k a flags evs w = Some (r, w') \<Longrightarrow> extends w w'"
proof (induction evs arbitrary: w)
  case Nil
  then show ?case by simp
next
  case (Cons ev evs)
  show ?case
  proof (cases ev)
    case Stopped
    with Cons.prems show ?thesis by simp
  next
    case (Read us res)
    obtain w1 where d: "deliver a flags us w = (Return (), w1)"
      using deliver_extends [of a flags us w] by (cases "deliver a flags us w") simp
    with deliver_extends [of a flags us w] have e: "extends w w1" by simp
    show ?thesis
    proof (cases res)
      case Success
      with Cons.prems Read d have "read_loop k a flags evs w1 = Some (r, w')" by simp
      from e Cons.IH [OF this] show ?thesis by (rule extends_trans)
    next
      case (Failure x)
      with Cons.prems Read d
      have "w' = addlog [Log INFO ''Stream %s ended: %v'' [AStr k, AStr x]] w1" by simp
      then have "extends w1 w'" by (simp add: extends_addlog quiet_single)
      with e show ?thesis by (rule extends_trans)
    next
      case (Fault p)
      with Cons.prems Read d e show ?thesis by simp
    qed
  qed
qed

lemma read_loop_returns: "list_ex ends evs \<Longrightarrow> read_loop k a flags evs w \<noteq> None"
proof (induction evs arbitrary: w)
  case Nil
  then show ?case by simp
next
  case (Cons ev evs)
  show ?case
  proof (cases ev)
    case Stopped
    then show ?thesis by simp
  next
    case (Read us res)
    obtain w1 where d: "deliver a flags us w = (Return (), w1)"
      using deliver_extends [of a flags us w] by (cases "deliver a flags us w") simp
    show ?thesis
    proof (cases res)
      case Success
      with Cons.prems Read have "list_ex ends evs" by simp
      from Cons.IH [OF this] Read Success d show ?thesis by simp
    qed (simp_all add: Read d)
  qed
qed

lemma read_loop_running: "\<not> list_ex ends evs \<Longrightarrow> read_loop k a flags evs w = None"
proof (induction evs arbitrary: w)
  case Nil
  then show ?case by simp
next
  case (Cons ev evs)
  show ?case
  proof (cases ev)
    case Stopped
    with Cons.prems show ?thesis by simp
  next
    case (Read us res)
    obtain w1 where d: "deliver a flags us w = (Return (), w1)"
      using deliver_extends [of a flags us w] by (cases "deliver a flags us w") simp
    from Cons.prems Read have res: "res = Success" by (cases res) simp_all
    with Cons.prems Read have "\<not> list_ex ends evs" by simp
    from Cons.IH [OF this] Read res d show ?thesis by simp
  qed
qed

lemma handlePublisher_body_extends:
  assumes "handlePublisher_body env k a w = Some (r, w3)"
  shows "extends w w3"
proof (cases "init env")
  case (Failure e)
  with assms have "w3 = addlog [Log ERROR ''Failed to initialize reader: %v'' [AStr e]] w"
    by (simp add: handlePublisher_body_def)
  then show ?thesis by (simp add: extends_addlog quiet_single)
next
  case (Fault p)
  with assms show ?thesis by (simp add: handlePublisher_body_def)
next
  case Success
  let ?w1 = "addlog [Log INFO ''Stream %s has %d tracks''
                             [AStr k, AInt (int (length (Tracks env)))]] w"
  obtain flags w2 where d: "discover k a (Tracks env) (False, False) ?w1 = (flags, w2)"
    by (cases "discover k a (Tracks env) (False, False) ?w1")
  let ?w3 = "if \<not> fst flags
             then addlog [Log WARN ''Stream %s: No H264 video track found'' [AStr k]] w2 else w2"
  have e1: "extends w ?w1" by (rule extends_addlog) (simp add: quiet_single)
  have "extends ?w1 w2" using extends_discover [of ?w1 k a "Tracks env" "(False, False)"] d by simp
  with e1 have e2: "extends w w2" by (rule extends_trans)
  have "extends w2 ?w3" by (simp add: extends_addlog quiet_single)
  with e2 have e3: "extends w ?w3" by (rule extends_trans)
  show ?thesis
  proof (cases "fst flags")
    case False
    with assms Success d have "read_loop k a flags (events env) ?w3 = Some (r, w3)"
      by (simp add: handlePublisher_body_def Let_def)
    from e3 read_loop_extends [OF this] show ?thesis by (rule extends_trans)
  next
    case True
    obtain sr w4 where st: "on_stream a (StartMuxer (start_now env) (start env)) w2 = (sr, w4)"
      by (cases "on_stream a (StartMuxer (start_now env) (start env)) w2")
    have "extends w2 (snd (on_stream a (StartMuxer (start_now env) (start env)) w2))"
      by (rule extends_on_stream) (rule quiet_StartMuxer)
    with st have "extends w2 w4" by simp
    with e2 have e4: "extends w w4" by (rule extends_trans)
    show ?thesis
    proof (cases sr)
      case (Panicking p)
      with assms Success d True st e4 show ?thesis
        by (simp add: handlePublisher_body_def Let_def)
    next
      case (Return err)
      show ?thesis
      proof (cases err)
        case None
        with assms Success d True st Return
        have "read_loop k a flags (events env) w4 = Some (r, w3)"
          by (simp add: handlePublisher_body_def Let_def)
        from e4 read_loop_extends [OF this] show ?thesis by (rule extends_trans)
      next
        case (Some x)
        with assms Success d True st Return
        have "w3 = addlog [Log ERROR ''Failed to start HLS muxer for %s: %v'' [AStr k, AStr x]] w4"
          by (simp add: handlePublisher_body_def Let_def)
        then have "extends w4 w3" by (simp add: extends_addlog quiet_single)
        with e4 show ?thesis by (rule extends_trans)
      qed
    qed
  qed
qed

lemma handlePublisher_body_returns:
  assumes "init env \<noteq> Success \<or> list_ex ends (events env)"
  shows "handlePublisher_body env k a w \<noteq> None"
proof (cases "init env")
  case (Failure e)
  then show ?thesis by (simp add: handlePublisher_body_def)
next
  case (Fault p)
  then show ?thesis by (simp add: handlePublisher_body_def)
next
  case Success
  with assms have ev: "list_ex ends (events env)" by simp
  let ?w1 = "addlog [Log INFO ''Stream %s has %d tracks''
                             [AStr k, AInt (int (length (Tracks env)))]] w"
  obtain flags w2 where d: "discover k a (Tracks env) (False, False) ?w1 = (flags, w2)"
    by (cases "discover k a (Tracks env) (False, False) ?w1")
  show ?thesis
  proof (cases "fst flags")
    case False
    with Success d read_loop_returns [OF ev] show ?thesis
      by (simp add: handlePublisher_body_def Let_def)
  next
    case True
    obtain sr w4 where st: "on_stream a (StartMuxer (start_now env) (start env)) w2 = (sr, w4)"
      by (cases "on_stream a (StartMuxer (start_now env) (start env)) w2")
    show ?thesis
    proof (cases sr)
      case (Panicking p)
      with Success d True st show ?thesis
        by (simp add: handlePublisher_body_def Let_def)
    next
      case (Return err)
      with Success d True st read_loop_returns [OF ev] show ?thesis
        by (cases err) (simp_all add: handlePublisher_body_def Let_def)
    qed
  qed
qed

lemma GetOrCreateStream_session:
  "snd (fst (GetOrCreateStream k t t' w)) = None \<and>
   map_of (streams (snd (GetOrCreateStream k t t' w))) k = Some (fst (fst (GetOrCreateStream k t t' w))) \<and>
   (\<exists>l. logs (snd (GetOrCreateStream k t t' w)) = logs w @ l \<and> quiet l)"
proof (cases "\<exists>a. map_of (streams w) k = Some a \<and> Active (heap w ! a)")
  case True
  then obtain a where a: "map_of (streams w) k = Some a" "Active (heap w ! a)" by blast
  have "logs w = logs w @ [] \<and> quiet []" by simp
  then have "\<exists>l. logs w = logs w @ l \<and> quiet l" by blast
  with a show ?thesis by (simp add: GetOrCreateStream_existing)
next
  case False
  have "quiet [Log INFO ''Stream created: %s'' [AStr k]]" by (simp add: quiet_single)
  then show ?thesis
    by (simp add: GetOrCreateStream_create [OF False] AList.update_conv')
qed

lemma teardown_Close_returns: "fst (teardown k (Return u) w) = Return ()"
proof -
  have "fst (RemoveStream k (Return u) w) = Return ()" by (rule RemoveStream_Close_returns)
  then obtain w' where "RemoveStream k (Return u) w = (Return (), w')"
    by (cases "RemoveStream k (Return u) w") simp
  then show ?thesis by (simp add: teardown_def)
qed

text \<open>
  The two ways the teardown ends on a key of the map: it returns, the entry deleted and
  its two lines logged; or \<open>Close()\<close> panics, and the entry stays, inactive, and
  neither line is logged.
\<close>

lemma teardown_cases:
  assumes m: "map_of (streams w3) k = Some a" and a: "a < length (heap w3)"
  shows "(fst (teardown k cl w3) = Return () \<and>
          GetStream (snd (teardown k cl w3)) k = None \<and>
          logs (snd (teardown k cl w3)) =
            logs w3 @ [Log INFO ''Stream removed: %s'' [AStr k],
                       Log INFO ''Publisher disconnected: %s'' [AStr k]]) \<or>
         (\<exists>p. cl = Panicking p \<and> fst (teardown k cl w3) = Panicking p \<and>
            GetStream (snd (teardown k cl w3)) k = Some a \<and>
            \<not> Active (heap (snd (teardown k cl w3)) ! a) \<and>
            Muxer (heap (snd (teardown k cl w3)) ! a) \<noteq> None \<and>
            logs (snd (teardown k cl w3)) = logs w3)"
proof (cases "Muxer (heap w3 ! a)")
  case None
  with m show ?thesis
    by (simp add: teardown_def RemoveStream_def Let_def addlog_def GetStream_def AList.delete_conv')
next
  case (Some mx)
  show ?thesis
  proof (cases cl)
    case (Return u)
    with m Some show ?thesis
      by (simp add: teardown_def RemoveStream_def Let_def addlog_def GetStream_def
          AList.delete_conv')
  next
    case (Panicking p)
    with m Some a show ?thesis
      by (simp add: teardown_def RemoveStream_def Let_def GetStream_def)
  qed
qed

lemma teardown_returns:
  assumes "map_of (streams w3) k = Some a" and "fst (teardown k cl w3) = Return ()"
  shows "GetStream (snd (teardown k cl w3)) k = None \<and>
         logs (snd (teardown k cl w3)) =
           logs w3 @ [Log INFO ''Stream removed: %s'' [AStr k],
                      Log INFO ''Publisher disconnected: %s'' [AStr k]]"
proof -
  have "fst (RemoveStream k cl w3) = Return ()"
    using assms(2) by (cases "RemoveStream k cl w3") (auto simp: teardown_def split: ret.splits)
  from RemoveStream_Return [OF assms(1) this] obtain s' where
    "snd (RemoveStream k cl w3) =
       w3\<lparr>heap := (heap w3)[a := s'], streams := AList.delete k (streams w3),
          logs := logs w3 @ [Log INFO ''Stream removed: %s'' [AStr k]]\<rparr>"
    by blast
  moreover from \<open>fst (RemoveStream k cl w3) = Return ()\<close>
  have "RemoveStream k cl w3 = (Return (), snd (RemoveStream k cl w3))"
    by (cases "RemoveStream k cl w3") simp
  ultimately have "teardown k cl w3 =
      (Return (),
       w3\<lparr>heap := (heap w3)[a := s'], streams := AList.delete k (streams w3),
          logs := logs w3 @ [Log INFO ''Stream removed: %s'' [AStr k],
                             Log INFO ''Publisher disconnected: %s'' [AStr k]]\<rparr>)"
    by (simp add: teardown_def addlog_def)
  then show ?thesis by (simp add: GetStream_def AList.delete_conv')
qed

text \<open>
  A session that ends returns what its body returned, unless the teardown panics; and
  it leaves the world of the teardown.
\<close>

lemma handlePublisher_unfold:
  "handlePublisher env w =
     (let w1 = addlog [Log INFO ''Publisher connected: %s from %s''
                         [AStr (session_key env), AStr (RemoteAddr env)]]
                 (case URL env of
                    Some path \<Rightarrow> w
                  | None \<Rightarrow> addlog [Log WARN ''No URL in RTMP connection, using default stream key'' []] w);
          g = GetOrCreateStream (session_key env) (create_now env) (create_now' env) w1
      in case handlePublisher_body env (session_key env) (fst (fst g)) (snd g) of
           None \<Rightarrow> None
         | Some (r, w3) \<Rightarrow>
             Some (case fst (teardown (session_key env) (close env) w3) of
                     Panicking p \<Rightarrow> Panicking p
                   | Return u \<Rightarrow> r,
                   snd (teardown (session_key env) (close env) w3)))"
proof -
  let ?w1 = "addlog [Log INFO ''Publisher connected: %s from %s''
                         [AStr (session_key env), AStr (RemoteAddr env)]]
                 (case URL env of
                    Some path \<Rightarrow> w
                  | None \<Rightarrow> addlog [Log WARN ''No URL in RTMP connection, using default stream key'' []] w)"
  obtain a e w2 where
    g: "GetOrCreateStream (session_key env) (create_now env) (create_now' env) ?w1 = ((a, e), w2)"
    by (metis prod.collapse)
  with GetOrCreateStream_session [of "session_key env" "create_now env" "create_now' env" ?w1]
  have e: "e = None" by simp
  show ?thesis
    unfolding handlePublisher_def Let_def g e
    by (auto split: option.splits prod.splits ret.splits)
qed

lemma wf_world_addlog: "wf_world (addlog l w) = wf_world w"
  by (simp add: wf_world_def addlog_def)

lemma count_format_append: "count_format f (l @ l') = count_format f l + count_format f l'"
  by (simp add: count_format_def)

lemma handlePublisher_Some:
  assumes "handlePublisher env w = Some (r, w')"
  shows "\<exists>a w2 w3 l r0.
           map_of (streams w2) (session_key env) = Some a \<and>
           handlePublisher_body env (session_key env) a w2 = Some (r0, w3) \<and>
           w' = snd (teardown (session_key env) (close env) w3) \<and>
           r = (case fst (teardown (session_key env) (close env) w3) of
                  Panicking p \<Rightarrow> Panicking p
                | Return u \<Rightarrow> r0) \<and>
           map_of (streams w3) (session_key env) = Some a \<and>
           logs w3 = logs w @ l \<and> quiet l \<and>
           (wf_world w \<longrightarrow> a < length (heap w3))"
proof -
  let ?k = "session_key env"
  let ?w0 = "case URL env of
               Some path \<Rightarrow> w
             | None \<Rightarrow> addlog [Log WARN ''No URL in RTMP connection, using default stream key'' []] w"
  let ?w1 = "addlog [Log INFO ''Publisher connected: %s from %s''
                       [AStr ?k, AStr (RemoteAddr env)]] ?w0"
  let ?g = "GetOrCreateStream ?k (create_now env) (create_now' env) ?w1"
  from assms obtain r0 w3 where
    body: "handlePublisher_body env ?k (fst (fst ?g)) (snd ?g) = Some (r0, w3)"
    and w': "w' = snd (teardown ?k (close env) w3)"
    and r: "r = (case fst (teardown ?k (close env) w3) of
                  Panicking p \<Rightarrow> Panicking p
                | Return u \<Rightarrow> r0)"
    by (auto simp: handlePublisher_unfold Let_def split: option.splits)
  have "\<exists>l. logs ?w0 = logs w @ l \<and> quiet l"
  proof (cases "URL env")
    case None
    have "quiet [Log WARN ''No URL in RTMP connection, using default stream key'' []]"
      by (simp add: quiet_single)
    with None show ?thesis by (simp add: addlog_def)
  next
    case (Some path)
    have "logs w = logs w @ [] \<and> quiet []" by simp
    with Some show ?thesis by (simp del: append_Nil2)
  qed
  then obtain l0 where l0: "logs ?w0 = logs w @ l0" "quiet l0" by blast
  have l1: "logs ?w1 = logs w @ (l0 @ [Log INFO ''Publisher connected: %s from %s''
                       [AStr ?k, AStr (RemoteAddr env)]])"
    by (simp add: addlog_def l0(1))
  have q1: "quiet (l0 @ [Log INFO ''Publisher connected: %s from %s''
                       [AStr ?k, AStr (RemoteAddr env)]])"
    using l0(2) by (simp add: quiet_single)
  from GetOrCreateStream_session [of ?k "create_now env" "create_now' env" ?w1]
  obtain l2 where m2: "map_of (streams (snd ?g)) ?k = Some (fst (fst ?g))"
    and l2: "logs (snd ?g) = logs ?w1 @ l2" "quiet l2"
    by blast
  from handlePublisher_body_extends [OF body]
  obtain l3 where s3: "streams w3 = streams (snd ?g)"
    and h3: "length (heap w3) = length (heap (snd ?g))"
    and l3: "logs w3 = logs (snd ?g) @ l3" "quiet l3"
    by (auto simp: extends_def)
  have alloc: "wf_world w \<longrightarrow> fst (fst ?g) < length (heap w3)"
  proof
    assume "wf_world w"
    then have "wf_world ?w0" by (cases "URL env") (simp_all add: wf_world_addlog)
    then have "wf_world ?w1" by (simp only: wf_world_addlog)
    from GetOrCreateStream_valid [OF this, of ?k "create_now env" "create_now' env"]
    show "fst (fst ?g) < length (heap w3)" by (simp only: h3)
  qed
  have m3: "map_of (streams w3) ?k = Some (fst (fst ?g))" by (simp only: s3 m2)
  have "logs w3 = logs w @ ((l0 @ [Log INFO ''Publisher connected: %s from %s''
                       [AStr ?k, AStr (RemoteAddr env)]]) @ l2 @ l3)"
    by (simp only: l3(1) l2(1) l1 append_assoc)
  moreover have "quiet ((l0 @ [Log INFO ''Publisher connected: %s from %s''
                       [AStr ?k, AStr (RemoteAddr env)]]) @ l2 @ l3)"
    using q1 l2(2) l3(2) by (simp only: quiet_append simp_thms)
  ultimately show ?thesis
    using m2 body w' r m3 alloc by blast
qed

lemma count_format_quiet:
  "quiet l \<Longrightarrow> count_format ''Stream removed: %s'' l = 0 \<and>
     count_format ''Publisher disconnected: %s'' l = 0"
  by (simp add: quiet_def)

text \<open>
  What a session that ends leaves behind. It returns when the reader initialisation does
  not succeed or when some pass of the read loop ends the loop. When it ends (by return
  or by panic, whatever ended the part behind \<open>GetOrCreateStream\<close>) the teardown has
  run once on the world of that part, and it ended in one of two ways: the manager has no
  entry for the key of the session, and among the log lines the session added there is
  exactly one of the teardown and exactly one removal, the removal of this key; or
  \<open>Close()\<close> panicked, the session ends with that panic, and the manager still has
  the entry of the key, the stream inactive and holding its segmenter, with no line of
  the teardown logged. The first way is the one of every session in which \<open>Close()\<close>
  returns.
\<close>

lemma session_teardown_cases:
  assumes hp: "handlePublisher env w = Some (r, w')" and wf: "wf_world w"
  shows "(GetStream w' (session_key env) = None \<and>
          count_format ''Stream removed: %s'' (added_logs w w') = 1 \<and>
          count_format ''Publisher disconnected: %s'' (added_logs w w') = 1 \<and>
          Log INFO ''Stream removed: %s'' [AStr (session_key env)] \<in> set (added_logs w w')) \<or>
         (\<exists>p a. close env = Panicking p \<and> r = Panicking p \<and>
            GetStream w' (session_key env) = Some a \<and> \<not> Active (heap w' ! a) \<and>
            Muxer (heap w' ! a) \<noteq> None \<and>
            count_format ''Stream removed: %s'' (added_logs w w') = 0 \<and>
            count_format ''Publisher disconnected: %s'' (added_logs w w') = 0)"
proof -
  let ?k = "session_key env"
  from handlePublisher_Some [OF hp] wf obtain a w2 w3 l r0 where
    body: "handlePublisher_body env ?k a w2 = Some (r0, w3)"
    and w': "w' = snd (teardown ?k (close env) w3)"
    and r: "r = (case fst (teardown ?k (close env) w3) of
                  Panicking p \<Rightarrow> Panicking p
                | Return u \<Rightarrow> r0)"
    and m3: "map_of (streams w3) ?k = Some a"
    and l: "logs w3 = logs w @ l" "quiet l"
    and a: "a < length (heap w3)"
    by blast
  note c0 = count_format_quiet [OF l(2)]
  from teardown_cases [OF m3 a, of "close env"] show ?thesis
  proof
    assume td: "fst (teardown ?k (close env) w3) = Return () \<and>
          GetStream (snd (teardown ?k (close env) w3)) ?k = None \<and>
          logs (snd (teardown ?k (close env) w3)) =
            logs w3 @ [Log INFO ''Stream removed: %s'' [AStr ?k],
                       Log INFO ''Publisher disconnected: %s'' [AStr ?k]]"
    have added: "added_logs w w' = l @ [Log INFO ''Stream removed: %s'' [AStr ?k],
        Log INFO ''Publisher disconnected: %s'' [AStr ?k]]"
      by (simp add: added_logs_def w' td l(1))
    have c1: "count_format ''Stream removed: %s''
        [Log INFO ''Stream removed: %s'' [AStr ?k],
         Log INFO ''Publisher disconnected: %s'' [AStr ?k]] = 1"
      "count_format ''Publisher disconnected: %s''
        [Log INFO ''Stream removed: %s'' [AStr ?k],
         Log INFO ''Publisher disconnected: %s'' [AStr ?k]] = 1"
      by (simp_all add: count_format_def)
    have "GetStream w' ?k = None" by (simp add: w' td)
    moreover have "count_format ''Stream removed: %s'' (added_logs w w') = 1"
      by (simp only: added count_format_append c0 c1 add_0)
    moreover have "count_format ''Publisher disconnected: %s'' (added_logs w w') = 1"
      by (simp only: added count_format_append c0 c1 add_0)
    moreover have "Log INFO ''Stream removed: %s'' [AStr ?k] \<in> set (added_logs w w')"
      by (simp add: added)
    ultimately show ?thesis by blast
  next
    assume "\<exists>p. close env = Panicking p \<and> fst (teardown ?k (close env) w3) = Panicking p \<and>
            GetStream (snd (teardown ?k (close env) w3)) ?k = Some a \<and>
            \<not> Active (heap (snd (teardown ?k (close env) w3)) ! a) \<and>
            Muxer (heap (snd (teardown ?k (close env) w3)) ! a) \<noteq> None \<and>
            logs (snd (teardown ?k (close env) w3)) = logs w3"
    then obtain p where p: "close env = Panicking p"
      and f: "fst (teardown ?k (close env) w3) = Panicking p"
      and g: "GetStream w' ?k = Some a" and na: "\<not> Active (heap w' ! a)"
      and mx: "Muxer (heap w' ! a) \<noteq> None" and lg: "logs w' = logs w3"
      unfolding w' by blast
    have added: "added_logs w w' = l" by (simp add: added_logs_def lg l(1))
    have "r = Panicking p" by (simp add: r f)
    with p g na mx c0 added show ?thesis by simp
  qed
qed

lemma handlePublisher_returns:
  assumes "init env \<noteq> Success \<or> list_ex ends (events env)"
  shows "handlePublisher env w \<noteq> None"
  using handlePublisher_body_returns [OF assms]
  by (auto simp: handlePublisher_unfold Let_def split: option.splits)

text \<open>
  C2. The teardown of a session whose segmenter panics in \<open>Close()\<close> leaves the entry
  of the key in the manager. The deferred function of \<open>handlePublisher\<close> calls
  \<open>RemoveStream\<close> once, and \<open>RemoveStream\<close> marks the stream inactive, calls
  \<open>Close()\<close> and only then deletes the entry, recovering nothing. So for every session
  from a well-formed manager that ends: either the manager has no entry for the key of
  the session afterwards, with exactly one removal (of this key) and one line of the
  teardown logged; or \<open>Close()\<close> panicked, the session ends with that panic, and
  \<open>GetStream\<close> still returns the stream of the key, inactive and holding its
  segmenter, with no removal logged. The first is the case whenever \<open>Close()\<close> returns
  or the stream holds no segmenter. And a session does end when the reader
  initialisation does not succeed or when some pass of the read loop ends the loop.
\<close>

theorem session_teardown_Close_panics:
  "(wf_world w \<and> handlePublisher env w = Some (r, w') \<longrightarrow>
      (GetStream w' (session_key env) = None \<and>
       count_format ''Stream removed: %s'' (added_logs w w') = 1 \<and>
       count_format ''Publisher disconnected: %s'' (added_logs w w') = 1 \<and>
       Log INFO ''Stream removed: %s'' [AStr (session_key env)] \<in> set (added_logs w w')) \<or>
      (\<exists>p a. close env = Panicking p \<and> r = Panicking p \<and>
         GetStream w' (session_key env) = Some a \<and> \<not> Active (heap w' ! a) \<and>
         Muxer (heap w' ! a) \<noteq> None \<and>
         count_format ''Stream removed: %s'' (added_logs w w') = 0 \<and>
         count_format ''Publisher disconnected: %s'' (added_logs w w') = 0)) \<and>
   (wf_world w \<and> handlePublisher env w = Some (r, w') \<and> close env = Return () \<longrightarrow>
      GetStream w' (session_key env) = None \<and>
      count_format ''Stream removed: %s'' (added_logs w w') = 1 \<and>
      count_format ''Publisher disconnected: %s'' (added_logs w w') = 1) \<and>
   (init env \<noteq> Success \<or> list_ex ends (events env) \<longrightarrow> handlePublisher env w \<noteq> None)"
proof (intro conjI impI)
  assume a: "wf_world w \<and> handlePublisher env w = Some (r, w')"
  then have wf: "wf_world w" and hp: "handlePublisher env w = Some (r, w')" by simp_all
  from session_teardown_cases [OF hp wf]
  show "(GetStream w' (session_key env) = None \<and>
       count_format ''Stream removed: %s'' (added_logs w w') = 1 \<and>
       count_format ''Publisher disconnected: %s'' (added_logs w w') = 1 \<and>
       Log INFO ''Stream removed: %s'' [AStr (session_key env)] \<in> set (added_logs w w')) \<or>
      (\<exists>p a. close env = Panicking p \<and> r = Panicking p \<and>
         GetStream w' (session_key env) = Some a \<and> \<not> Active (heap w' ! a) \<and>
         Muxer (heap w' ! a) \<noteq> None \<and>
         count_format ''Stream removed: %s'' (added_logs w w') = 0 \<and>
         count_format ''Publisher disconnected: %s'' (added_logs w w') = 0)" .
next
  assume a: "wf_world w \<and> handlePublisher env w = Some (r, w') \<and> close env = Return ()"
  then have wf: "wf_world w" and hp: "handlePublisher env w = Some (r, w')"
    and cl: "close env = Return ()" by simp_all
  from session_teardown_cases [OF hp wf] cl
  have c: "GetStream w' (session_key env) = None \<and>
       count_format ''Stream removed: %s'' (added_logs w w') = 1 \<and>
       count_format ''Publisher disconnected: %s'' (added_logs w w') = 1 \<and>
       Log INFO ''Stream removed: %s'' [AStr (session_key env)] \<in> set (added_logs w w')"
    by auto
  from c show "GetStream w' (session_key env) = None" by simp
  from c show "count_format ''Stream removed: %s'' (added_logs w w') = 1" by simp
  from c show "count_format ''Publisher disconnected: %s'' (added_logs w w') = 1" by simp
next
  assume "init env \<noteq> Success \<or> list_ex ends (events env)"
  then show "handlePublisher env w \<noteq> None" by (rule handlePublisher_returns)
qed

theorem session_teardown_Close_panics_witness:
  "wf_world (NewManager ''hls'') \<and>
   session_key \<lparr>URL = Some ''/live/abc'', RemoteAddr = ''10.0.0.1:5000'', create_now = 1,
      create_now' = 2, init = Success, Tracks = [H264 ''S'' ''P''],
      start_now = 3, start = Failure ''no tracks'', events = [],
      close = Panicking ''close''\<rparr> = ''abc'' \<and>
   handlePublisher \<lparr>URL = Some ''/live/abc'', RemoteAddr = ''10.0.0.1:5000'', create_now = 1,
      create_now' = 2, init = Success, Tracks = [H264 ''S'' ''P''],
      start_now = 3, start = Failure ''no tracks'', events = [],
      close = Panicking ''close''\<rparr> (NewManager ''hls'') =
     Some (Panicking ''close'',
       \<lparr>streams = [(''abc'', 0)], hlsDir = ''hls'',
        heap = [\<lparr>Key = ''abc'',
                 Muxer = Some \<lparr>SPS = ''S'', PPS = ''P'', SampleRate = 48000, ChannelCount = 2,
                           calls = [MStart, MClose]\<rparr>,
                 StartTime = 1, Active = False, sps = ''S'', pps = ''P'',
                 audioSampleRate = 0, audioChannelCount = 0, ntpStart = 0,
                 muxerReady = False, bytesTotal = 0, lastUpdate = 2, bitrate = 0\<rparr>],
        logs = [Log INFO ''Publisher connected: %s from %s'' [AStr ''abc'', AStr ''10.0.0.1:5000''],
                Log INFO ''Stream created: %s'' [AStr ''abc''],
                Log INFO ''Stream %s has %d tracks'' [AStr ''abc'', AInt 1],
                Log INFO ''Stream %s: H264 video track detected'' [AStr ''abc''],
                Log WARN ''Using default audio sample rate: 48kHz'' [],
                Log WARN ''Using default audio channels: stereo'' [],
                Log ERROR ''Failed to start HLS muxer for %s: %v''
                  [AStr ''abc'', AStr ''failed to start muxer: no tracks'']]\<rparr>) \<and>
   (\<exists>r w'. handlePublisher \<lparr>URL = Some ''/live/abc'', RemoteAddr = ''10.0.0.1:5000'', create_now = 1,
      create_now' = 2, init = Success, Tracks = [H264 ''S'' ''P''],
      start_now = 3, start = Failure ''no tracks'', events = [],
      close = Panicking ''close''\<rparr> (NewManager ''hls'') = Some (r, w') \<and>
      r = Panicking ''close'' \<and>
      GetStream w' ''abc'' = Some 0 \<and> \<not> Active (heap w' ! 0) \<and>
      count_format ''Stream removed: %s'' (added_logs (NewManager ''hls'') w') = 0 \<and>
      count_format ''Publisher disconnected: %s'' (added_logs (NewManager ''hls'') w') = 0) \<and>
   (\<exists>r w'. handlePublisher \<lparr>URL = Some ''/live/abc'', RemoteAddr = ''10.0.0.1:5000'', create_now = 1,
      create_now' = 2, init = Success, Tracks = [H264 ''S'' ''P'', MPEG4Audio 44100 2],
      start_now = 3, start = Success,
      events = [Read [VideoUnit 40 40 [''ab''] 4 Success] Success, Read [] (Failure ''EOF'')],
      close = Return ()\<rparr> (NewManager ''hls'') = Some (r, w') \<and>
      GetStream w' ''abc'' = None \<and>
      count_format ''Stream removed: %s'' (added_logs (NewManager ''hls'') w') = 1)"
proof -
  let ?e1 = "\<lparr>URL = Some ''/live/abc'', RemoteAddr = ''10.0.0.1:5000'', create_now = 1,
      create_now' = 2, init = Success, Tracks = [H264 ''S'' ''P'', MPEG4Audio 44100 2],
      start_now = 3, start = Success,
      events = [Read [VideoUnit 40 40 [''ab''] 4 Success] Success, Read [] (Failure ''EOF'')],
      close = Return ()\<rparr>"
  let ?e3 = "\<lparr>URL = Some ''/live/abc'', RemoteAddr = ''10.0.0.1:5000'', create_now = 1,
      create_now' = 2, init = Success, Tracks = [H264 ''S'' ''P''],
      start_now = 3, start = Failure ''no tracks'', events = [],
      close = Panicking ''close''\<rparr>"
  let ?W = "NewManager ''hls''"
  let ?W3 = "\<lparr>streams = [(''abc'', 0)], hlsDir = ''hls'',
        heap = [\<lparr>Key = ''abc'',
                 Muxer = Some \<lparr>SPS = ''S'', PPS = ''P'', SampleRate = 48000, ChannelCount = 2,
                           calls = [MStart, MClose]\<rparr>,
                 StartTime = 1, Active = False, sps = ''S'', pps = ''P'',
                 audioSampleRate = 0, audioChannelCount = 0, ntpStart = 0,
                 muxerReady = False, bytesTotal = 0, lastUpdate = 2, bitrate = 0\<rparr>],
        logs = [Log INFO ''Publisher connected: %s from %s'' [AStr ''abc'', AStr ''10.0.0.1:5000''],
                Log INFO ''Stream created: %s'' [AStr ''abc''],
                Log INFO ''Stream %s has %d tracks'' [AStr ''abc'', AInt 1],
                Log INFO ''Stream %s: H264 video track detected'' [AStr ''abc''],
                Log WARN ''Using default audio sample rate: 48kHz'' [],
                Log WARN ''Using default audio channels: stereo'' [],
                Log ERROR ''Failed to start HLS muxer for %s: %v''
                  [AStr ''abc'', AStr ''failed to start muxer: no tracks'']]\<rparr>"
  have wf: "wf_world ?W" by (rule NewManager_wf)
  have key: "extractStreamKey ''/live/abc'' = ''abc''"
    by (simp add: extractStreamKey_def TrimPrefix_def Split.simps)
  have k: "session_key ?e1 = ''abc''" "session_key ?e3 = ''abc''"
    by (simp_all add: session_key_def key)
  have "init ?e1 \<noteq> Success \<or> list_ex ends (events ?e1)" by simp
  with session_teardown_Close_panics [of ?W ?e1] have "handlePublisher ?e1 ?W \<noteq> None" by blast
  then obtain r1 w1 where h1: "handlePublisher ?e1 ?W = Some (r1, w1)" by auto
  have "close ?e1 = Return ()" by simp
  with session_teardown_Close_panics [of ?W ?e1 r1 w1, THEN conjunct2, THEN conjunct1] wf h1
  have c1: "GetStream w1 ''abc'' = None \<and>
      count_format ''Stream removed: %s'' (added_logs ?W w1) = 1"
    by (simp only: k simp_thms)
  have h3: "handlePublisher ?e3 ?W = Some (Panicking ''close'', ?W3)"
    by (simp add: handlePublisher_def session_key_def key handlePublisher_body_def Let_def
        on_stream_def StartMuxer_def GetOrCreateStream_def NewManager_def addlog_def
        SetVideoParams_def new_Stream_def teardown_def RemoveStream_def mux_call_def)
  have g3: "GetStream ?W3 ''abc'' = Some 0" by (simp add: GetStream_def)
  from session_teardown_Close_panics [of ?W ?e3 "Panicking ''close''" ?W3, THEN conjunct1] wf h3
  have "(GetStream ?W3 (session_key ?e3) = None \<and>
       count_format ''Stream removed: %s'' (added_logs ?W ?W3) = 1 \<and>
       count_format ''Publisher disconnected: %s'' (added_logs ?W ?W3) = 1 \<and>
       Log INFO ''Stream removed: %s'' [AStr (session_key ?e3)] \<in> set (added_logs ?W ?W3)) \<or>
      (\<exists>p a. close ?e3 = Panicking p \<and> Panicking ''close'' = Panicking p \<and>
         GetStream ?W3 (session_key ?e3) = Some a \<and> \<not> Active (heap ?W3 ! a) \<and>
         Muxer (heap ?W3 ! a) \<noteq> None \<and>
         count_format ''Stream removed: %s'' (added_logs ?W ?W3) = 0 \<and>
         count_format ''Publisher disconnected: %s'' (added_logs ?W ?W3) = 0)"
    by blast
  with g3 obtain a where "GetStream ?W3 ''abc'' = Some a" "\<not> Active (heap ?W3 ! a)"
    "count_format ''Stream removed: %s'' (added_logs ?W ?W3) = 0"
    "count_format ''Publisher disconnected: %s'' (added_logs ?W ?W3) = 0"
    unfolding k by auto
  with g3 have c3: "\<not> Active (heap ?W3 ! 0)"
    "count_format ''Stream removed: %s'' (added_logs ?W ?W3) = 0"
    "count_format ''Publisher disconnected: %s'' (added_logs ?W ?W3) = 0"
    by simp_all
  have e3: "\<exists>r w'. handlePublisher ?e3 ?W = Some (r, w') \<and> r = Panicking ''close'' \<and>
      GetStream w' ''abc'' = Some 0 \<and> \<not> Active (heap w' ! 0) \<and>
      count_format ''Stream removed: %s'' (added_logs ?W w') = 0 \<and>
      count_format ''Publisher disconnected: %s'' (added_logs ?W w') = 0"
    using h3 g3 c3 by blast
  have e1: "\<exists>r w'. handlePublisher ?e1 ?W = Some (r, w') \<and> GetStream w' ''abc'' = None \<and>
      count_format ''Stream removed: %s'' (added_logs ?W w') = 1"
    using h1 c1 by blast
  show ?thesis
    by (intro conjI) (rule wf, rule k(2), rule h3, rule e3, rule e1)
qed

end
